theory Spec2Isabelle
  imports Complex_Main "HOL-Library.Multiset"
begin

section \<open>Constants of the program\<close>

abbreviation (input) HAND_SIZE :: nat where "HAND_SIZE \<equiv> 5"
abbreviation (input) SUIT_COUNT :: nat where "SUIT_COUNT \<equiv> 4"
abbreviation (input) RANK_COUNT :: nat where "RANK_COUNT \<equiv> 13"
abbreviation (input) HIGH_CARD :: int where "HIGH_CARD \<equiv> 1"
abbreviation (input) ONE_PAIR :: int where "ONE_PAIR \<equiv> 2"
abbreviation (input) TWO_PAIR :: int where "TWO_PAIR \<equiv> 3"
abbreviation (input) THREE_OF_A_KIND :: int where "THREE_OF_A_KIND \<equiv> 4"
abbreviation (input) STRAIGHT :: int where "STRAIGHT \<equiv> 5"
abbreviation (input) FLUSH :: int where "FLUSH \<equiv> 6"
abbreviation (input) FULL_HOUSE :: int where "FULL_HOUSE \<equiv> 7"
abbreviation (input) FOUR_OF_A_KIND :: int where "FOUR_OF_A_KIND \<equiv> 8"
abbreviation (input) STRAIGHT_FLUSH :: int where "STRAIGHT_FLUSH \<equiv> 9"
abbreviation (input) MAJOR_RANK_DIGIT :: nat where "MAJOR_RANK_DIGIT \<equiv> 0"
abbreviation (input) MINOR_RANK_DIGIT :: nat where "MINOR_RANK_DIGIT \<equiv> 1"
abbreviation (input) LOW_PAIR_DIGIT :: nat where "LOW_PAIR_DIGIT \<equiv> 2"

definition SUIT_LIST :: "char list" where
  "SUIT_LIST = ''CDHS''"

section \<open>Arrays, failures and sequencing\<close>

text \<open>
  A C array is a list whose length is the declared size of the array. An access whose
  index is not below that size is undefined behaviour in C; it is the failure
  \<open>OutOfBounds\<close> here. \<open>NoMoreDraws\<close> is not a failure of the program: the values
  returned by successive calls of \<open>rand()\<close> are an input of the model, given as a finite
  list, and a run that asks for more values than the list holds ends with it.
\<close>

datatype error = OutOfBounds | NoMoreDraws

definition rd :: "'a list \<Rightarrow> nat \<Rightarrow> error + 'a" where
  "rd xs i = (if i < length xs then Inr (xs ! i) else Inl OutOfBounds)"

definition wr :: "'a list \<Rightarrow> nat \<Rightarrow> 'a \<Rightarrow> error + 'a list" where
  "wr xs i v = (if i < length xs then Inr (xs[i := v]) else Inl OutOfBounds)"

definition bindE :: "error + 'a \<Rightarrow> ('a \<Rightarrow> error + 'b) \<Rightarrow> error + 'b" where
  "bindE m f = (case m of Inl e \<Rightarrow> Inl e | Inr v \<Rightarrow> f v)"

lemma bindE_Inl [simp]: "bindE (Inl e) f = Inl e"
  by (simp add: bindE_def)

lemma bindE_Inr [simp]: "bindE (Inr v) f = f v"
  by (simp add: bindE_def)

lemma bindE_cong [fundef_cong]:
  "m = m' \<Longrightarrow> (\<And>v. m' = Inr v \<Longrightarrow> f v = g v) \<Longrightarrow> bindE m f = bindE m' g"
  by (cases m') (simp_all add: bindE_def)

lemma rd_Inr_iff: "rd xs i = Inr v \<longleftrightarrow> i < length xs \<and> v = xs ! i"
  by (auto simp: rd_def)

section \<open>The external variables\<close>

text \<open>
  \<open>probabilities\<close> is a \<open>float\<close> array in the source; its values are exact rationals
  here, so rounding is not modelled.
\<close>

record pstate =
  handRank :: "int list"
  handSuit :: "char list"
  copyHandRank :: "int list"
  copyHandSuit :: "char list"
  probabilities :: "rat list"
  pokerHandID :: "int list"

section \<open>The detectors\<close>

subsection \<open>isFlush\<close>

text \<open>The first loop: \<open>False\<close> is the early \<open>return FALSE\<close>, \<open>True\<close> the loop run to its end.\<close>

function isFlush_scan :: "char list \<Rightarrow> char \<Rightarrow> nat \<Rightarrow> error + bool" where
  "isFlush_scan hs flushSuit i =
     (if i < HAND_SIZE then
        bindE (rd hs i) (\<lambda>c.
          if flushSuit \<noteq> c then Inr False else isFlush_scan hs flushSuit (i + 1))
      else Inr True)"
  by pat_completeness auto
termination
  by (relation "measure (\<lambda>(hs, flushSuit, i). HAND_SIZE - i)") auto

function isFlush_sum :: "int list \<Rightarrow> nat \<Rightarrow> int \<Rightarrow> error + int" where
  "isFlush_sum hr i flushSum =
     (if i < HAND_SIZE then
        bindE (rd hr i) (\<lambda>r. isFlush_sum hr (i + 1) (flushSum + r))
      else Inr flushSum)"
  by pat_completeness auto
termination
  by (relation "measure (\<lambda>(hr, i, flushSum). HAND_SIZE - i)") auto

definition isFlush :: "pstate \<Rightarrow> error + int" where
  "isFlush s =
     bindE (rd (handSuit s) 0) (\<lambda>flushSuit.
     bindE (isFlush_scan (handSuit s) flushSuit 1) (\<lambda>completed.
       if completed then isFlush_sum (handRank s) 0 0 else Inr 0))"

subsection \<open>isStraight\<close>

definition specialStraight :: "int list" where
  "specialStraight = [2, 3, 4, 5, 14]"

text \<open>Both loops return the value of their index when they stop.\<close>

function isStraight_special :: "int list \<Rightarrow> nat \<Rightarrow> error + nat" where
  "isStraight_special hr i =
     (if i < HAND_SIZE then
        bindE (rd hr i) (\<lambda>r.
        bindE (rd specialStraight i) (\<lambda>w.
          if r \<noteq> w then Inr i else isStraight_special hr (i + 1)))
      else Inr i)"
  by pat_completeness auto
termination
  by (relation "measure (\<lambda>(hr, i). HAND_SIZE - i)") auto

function isStraight_run :: "int list \<Rightarrow> nat \<Rightarrow> error + nat" where
  "isStraight_run hr j =
     (if j < HAND_SIZE - 1 then
        bindE (rd hr j) (\<lambda>a.
        bindE (rd hr (j + 1)) (\<lambda>b.
          if a \<noteq> b - 1 then Inr j else isStraight_run hr (j + 1)))
      else Inr j)"
  by pat_completeness auto
termination
  by (relation "measure (\<lambda>(hr, j). HAND_SIZE - 1 - j)") auto

definition isStraight :: "pstate \<Rightarrow> error + int" where
  "isStraight s =
     bindE (isStraight_special (handRank s) 0) (\<lambda>i.
     bindE (isStraight_run (handRank s) 0) (\<lambda>j.
     bindE (if j = HAND_SIZE - 1 then rd (handRank s) (HAND_SIZE - 1) else Inr 0) (\<lambda>highCard.
       if i = HAND_SIZE then rd (handRank s) (HAND_SIZE - 2) else Inr highCard)))"

subsection \<open>isXOfAKind\<close>

text \<open>
  The \<open>while\<close> loop has no bound on \<open>i\<close>: it reads \<open>handRank[i + 1]\<close> as long as
  \<open>diffCounter\<close> allows.
\<close>

function isXOfAKind_loop :: "int \<Rightarrow> int list \<Rightarrow> nat \<Rightarrow> int \<Rightarrow> int \<Rightarrow> error + int" where
  "isXOfAKind_loop x hr i diffCounter matchCounter =
     (if diffCounter \<le> int HAND_SIZE - x + 1 then
        bindE (rd hr i) (\<lambda>a.
        bindE (rd hr (i + 1)) (\<lambda>b.
          let matchCounter' = (if a = b then matchCounter + 1 else 1);
              diffCounter' = (if a = b then diffCounter else diffCounter + 1)
          in if matchCounter' = x then Inr a
             else isXOfAKind_loop x hr (i + 1) diffCounter' matchCounter'))
      else Inr 0)"
  by pat_completeness auto
termination
  by (relation "measure (\<lambda>(x, hr, i, diffCounter, matchCounter). length hr - i)")
     (auto simp: rd_Inr_iff)

definition isXOfAKind :: "int \<Rightarrow> pstate \<Rightarrow> error + int" where
  "isXOfAKind x s = isXOfAKind_loop x (handRank s) 0 1 1"

subsection \<open>isFullHouse\<close>

text \<open>The \<open>while\<close> loop runs until three distinct ranks have been seen, with no bound on \<open>i\<close>.\<close>

function isFullHouse_loop :: "int list \<Rightarrow> nat \<Rightarrow> nat \<Rightarrow> int list \<Rightarrow> int \<Rightarrow> error + int" where
  "isFullHouse_loop hr i uniqueCards counter cardRankOfTriplet =
     (if uniqueCards < 3 then
        bindE (rd hr i) (\<lambda>a.
        bindE (rd hr (i + 1)) (\<lambda>b.
          let counter' = (if a = b
                          then counter[uniqueCards - 1 := counter ! (uniqueCards - 1) + 1]
                          else counter);
              uniqueCards' = (if a = b then uniqueCards else uniqueCards + 1)
          in bindE (if counter' ! 0 = 2 \<and> counter' ! 1 = 3 then rd hr (HAND_SIZE - 1)
                    else if counter' ! 0 = 3 \<and> counter' ! 1 = 2 then rd hr 0
                    else Inr cardRankOfTriplet) (\<lambda>cardRankOfTriplet'.
             isFullHouse_loop hr (i + 1) uniqueCards' counter' cardRankOfTriplet')))
      else Inr cardRankOfTriplet)"
  by pat_completeness auto
termination
  by (relation "measure (\<lambda>(hr, i, uniqueCards, counter, t). length hr - i)")
     (auto simp: rd_Inr_iff)

definition isFullHouse :: "pstate \<Rightarrow> error + int" where
  "isFullHouse s = isFullHouse_loop (handRank s) 0 1 [1, 1] 0"

subsection \<open>isTwoPair\<close>

function isTwoPair_loop :: "int list \<Rightarrow> nat \<Rightarrow> nat \<Rightarrow> int list \<Rightarrow> error + int list" where
  "isTwoPair_loop hr i uniqueCardCount counter =
     (if uniqueCardCount < 4 \<and> i < HAND_SIZE - 1 then
        bindE (rd hr i) (\<lambda>a.
        bindE (rd hr (i + 1)) (\<lambda>b.
          if a = b
          then isTwoPair_loop hr (i + 1) uniqueCardCount
                 (counter[uniqueCardCount - 1 := counter ! (uniqueCardCount - 1) + 1])
          else isTwoPair_loop hr (i + 1) (uniqueCardCount + 1) counter))
      else Inr counter)"
  by pat_completeness auto
termination
  by (relation "measure (\<lambda>(hr, i, uniqueCardCount, counter). HAND_SIZE - 1 - i)") auto

definition isTwoPair :: "pstate \<Rightarrow> error + int" where
  "isTwoPair s =
     bindE (isTwoPair_loop (handRank s) 0 1 [1, 1, 1]) (\<lambda>counter.
       if counter ! 0 = 2 \<and> counter ! 1 = 2 then rd (handRank s) (HAND_SIZE div 2)
       else if (counter ! 0 = 2 \<and> counter ! 2 = 2) \<or> (counter ! 1 = 2 \<and> counter ! 2 = 2)
       then rd (handRank s) (HAND_SIZE - 1)
       else Inr 0)"

subsection \<open>highCard\<close>

function highCard_loop :: "int list \<Rightarrow> nat \<Rightarrow> int \<Rightarrow> error + int" where
  "highCard_loop hr i highCardRank =
     (if i < HAND_SIZE then
        bindE (rd hr i) (\<lambda>r.
          highCard_loop hr (i + 1) (if highCardRank < r then r else highCardRank))
      else Inr highCardRank)"
  by pat_completeness auto
termination
  by (relation "measure (\<lambda>(hr, i, highCardRank). HAND_SIZE - i)") auto

definition highCard :: "pstate \<Rightarrow> error + int" where
  "highCard s = highCard_loop (handRank s) 0 0"

section \<open>getHandRank\<close>

definition setDigit :: "nat \<Rightarrow> int \<Rightarrow> pstate \<Rightarrow> error + pstate" where
  "setDigit d v s = bindE (wr (pokerHandID s) d v) (\<lambda>p. Inr (s\<lparr>pokerHandID := p\<rparr>))"

definition getHandRank :: "pstate \<Rightarrow> error + pstate" where
  "getHandRank s0 =
     bindE (setDigit LOW_PAIR_DIGIT 0 s0) (\<lambda>s.
     bindE (isStraight s) (\<lambda>straightMinorRank.
     bindE (isFlush s) (\<lambda>flushMinorRank.
     if flushMinorRank \<noteq> 0 \<and> straightMinorRank \<noteq> 0 then
       bindE (setDigit MAJOR_RANK_DIGIT STRAIGHT_FLUSH s)
         (setDigit MINOR_RANK_DIGIT straightMinorRank)
     else bindE (isXOfAKind 4 s) (\<lambda>tempMinorRank.
     if tempMinorRank \<noteq> 0 then
       bindE (setDigit MAJOR_RANK_DIGIT FOUR_OF_A_KIND s)
         (setDigit MINOR_RANK_DIGIT tempMinorRank)
     else bindE (isFullHouse s) (\<lambda>tempMinorRank.
     if tempMinorRank \<noteq> 0 then
       bindE (setDigit MAJOR_RANK_DIGIT FULL_HOUSE s)
         (setDigit MINOR_RANK_DIGIT tempMinorRank)
     else if flushMinorRank \<noteq> 0 then
       bindE (setDigit MAJOR_RANK_DIGIT FLUSH s)
         (setDigit MINOR_RANK_DIGIT flushMinorRank)
     else if straightMinorRank \<noteq> 0 then
       bindE (setDigit MAJOR_RANK_DIGIT STRAIGHT s)
         (setDigit MINOR_RANK_DIGIT straightMinorRank)
     else bindE (isXOfAKind 3 s) (\<lambda>tempMinorRank.
     if tempMinorRank \<noteq> 0 then
       bindE (setDigit MAJOR_RANK_DIGIT THREE_OF_A_KIND s)
         (setDigit MINOR_RANK_DIGIT tempMinorRank)
     else bindE (isTwoPair s) (\<lambda>tempMinorRank.
     if tempMinorRank \<noteq> 0 then
       bindE (setDigit MAJOR_RANK_DIGIT TWO_PAIR s) (\<lambda>s1.
       bindE (setDigit MINOR_RANK_DIGIT tempMinorRank s1) (\<lambda>s2.
       bindE (isXOfAKind 2 s2) (\<lambda>lowPair.
         setDigit LOW_PAIR_DIGIT lowPair s2)))
     else bindE (isXOfAKind 2 s) (\<lambda>tempMinorRank.
     if tempMinorRank \<noteq> 0 then
       bindE (setDigit MAJOR_RANK_DIGIT ONE_PAIR s)
         (setDigit MINOR_RANK_DIGIT tempMinorRank)
     else bindE (highCard s) (\<lambda>h.
       bindE (setDigit MAJOR_RANK_DIGIT HIGH_CARD s)
         (setDigit MINOR_RANK_DIGIT h))))))))))"

section \<open>isBetterHand\<close>

text \<open>
  The \<open>switch\<close> of \<open>isBetterHand\<close> has one function per \<open>case\<close> label. A \<open>break\<close> with
  \<open>betterHandDetected = TRUE\<close> is the result \<open>True\<close>; a case that does not break falls
  through to the function of the next label. \<open>straightMinorRank\<close> and \<open>flushMinorRank\<close>
  are passed on, since the last case reads them.
\<close>

definition case_STRAIGHT_FLUSH :: "pstate \<Rightarrow> int \<Rightarrow> int \<Rightarrow> int \<Rightarrow> int \<Rightarrow> error + bool" where
  "case_STRAIGHT_FLUSH s majorRank minorRank straightMinorRank0 flushMinorRank0 =
     bindE (if straightMinorRank0 = 0 then isStraight s else Inr straightMinorRank0)
       (\<lambda>straightMinorRank.
     bindE (if flushMinorRank0 = 0 then isFlush s else Inr flushMinorRank0)
       (\<lambda>flushMinorRank.
       if straightMinorRank \<noteq> 0 \<and> flushMinorRank \<noteq> 0 then
         (if majorRank = STRAIGHT_FLUSH
          then (if straightMinorRank > minorRank then Inr True else Inr False)
          else Inr True)
       else Inr False))"

definition case_FOUR_OF_A_KIND :: "pstate \<Rightarrow> int \<Rightarrow> int \<Rightarrow> int \<Rightarrow> int \<Rightarrow> error + bool" where
  "case_FOUR_OF_A_KIND s majorRank minorRank straightMinorRank flushMinorRank =
     bindE (isXOfAKind 4 s) (\<lambda>tempMinor.
       if tempMinor \<noteq> 0 \<and> FOUR_OF_A_KIND > majorRank then Inr True
       else if tempMinor \<noteq> 0 \<and> tempMinor > minorRank then Inr True
       else case_STRAIGHT_FLUSH s majorRank minorRank straightMinorRank flushMinorRank)"

definition case_FULL_HOUSE :: "pstate \<Rightarrow> int \<Rightarrow> int \<Rightarrow> int \<Rightarrow> int \<Rightarrow> error + bool" where
  "case_FULL_HOUSE s majorRank minorRank straightMinorRank flushMinorRank =
     bindE (isFullHouse s) (\<lambda>tempMinor.
       if tempMinor \<noteq> 0 \<and> FULL_HOUSE > majorRank then Inr True
       else if tempMinor \<noteq> 0 \<and> tempMinor > minorRank then Inr True
       else case_FOUR_OF_A_KIND s majorRank minorRank straightMinorRank flushMinorRank)"

definition case_FLUSH :: "pstate \<Rightarrow> int \<Rightarrow> int \<Rightarrow> int \<Rightarrow> error + bool" where
  "case_FLUSH s majorRank minorRank straightMinorRank =
     bindE (isFlush s) (\<lambda>flushMinorRank.
       if flushMinorRank \<noteq> 0 \<and> FLUSH > majorRank then Inr True
       else if flushMinorRank \<noteq> 0 \<and> flushMinorRank > minorRank then Inr True
       else case_FULL_HOUSE s majorRank minorRank straightMinorRank flushMinorRank)"

definition case_STRAIGHT :: "pstate \<Rightarrow> int \<Rightarrow> int \<Rightarrow> error + bool" where
  "case_STRAIGHT s majorRank minorRank =
     bindE (isStraight s) (\<lambda>straightMinorRank.
       if straightMinorRank \<noteq> 0 \<and> STRAIGHT > majorRank then Inr True
       else if straightMinorRank \<noteq> 0 \<and> straightMinorRank > minorRank then Inr True
       else case_FLUSH s majorRank minorRank straightMinorRank)"

definition case_THREE_OF_A_KIND :: "pstate \<Rightarrow> int \<Rightarrow> int \<Rightarrow> error + bool" where
  "case_THREE_OF_A_KIND s majorRank minorRank =
     bindE (isXOfAKind 3 s) (\<lambda>tempMinor.
       if tempMinor \<noteq> 0 \<and> THREE_OF_A_KIND > majorRank then Inr True
       else if tempMinor \<noteq> 0 \<and> tempMinor > minorRank then Inr True
       else case_STRAIGHT s majorRank minorRank)"

definition case_TWO_PAIR :: "pstate \<Rightarrow> int \<Rightarrow> int \<Rightarrow> error + bool" where
  "case_TWO_PAIR s majorRank minorRank =
     bindE (isTwoPair s) (\<lambda>tempMinor.
       if tempMinor \<noteq> 0 \<and> TWO_PAIR > majorRank then Inr True
       else if tempMinor \<noteq> 0 \<and> tempMinor > minorRank then Inr True
       else if tempMinor \<noteq> 0 \<and> tempMinor = minorRank then
         bindE (isXOfAKind 2 s) (\<lambda>lowPair.
         bindE (rd (pokerHandID s) LOW_PAIR_DIGIT) (\<lambda>baseLow.
           if lowPair > baseLow then Inr True
           else case_THREE_OF_A_KIND s majorRank minorRank))
       else case_THREE_OF_A_KIND s majorRank minorRank)"

definition case_ONE_PAIR :: "pstate \<Rightarrow> int \<Rightarrow> int \<Rightarrow> error + bool" where
  "case_ONE_PAIR s majorRank minorRank =
     bindE (isXOfAKind 2 s) (\<lambda>tempMinor.
       if tempMinor \<noteq> 0 \<and> ONE_PAIR > majorRank then Inr True
       else if tempMinor \<noteq> 0 \<and> tempMinor > minorRank then Inr True
       else case_TWO_PAIR s majorRank minorRank)"

definition case_HIGH_CARD :: "pstate \<Rightarrow> int \<Rightarrow> int \<Rightarrow> error + bool" where
  "case_HIGH_CARD s majorRank minorRank =
     bindE (highCard s) (\<lambda>h.
       if h > minorRank then Inr True
       else case_ONE_PAIR s majorRank minorRank)"

definition isBetterHand :: "pstate \<Rightarrow> error + bool" where
  "isBetterHand s =
     bindE (rd (pokerHandID s) MAJOR_RANK_DIGIT) (\<lambda>majorRank.
     bindE (rd (pokerHandID s) MINOR_RANK_DIGIT) (\<lambda>minorRank.
       if majorRank = HIGH_CARD then case_HIGH_CARD s majorRank minorRank
       else if majorRank = ONE_PAIR then case_ONE_PAIR s majorRank minorRank
       else if majorRank = TWO_PAIR then case_TWO_PAIR s majorRank minorRank
       else if majorRank = THREE_OF_A_KIND then case_THREE_OF_A_KIND s majorRank minorRank
       else if majorRank = STRAIGHT then case_STRAIGHT s majorRank minorRank
       else if majorRank = FLUSH then case_FLUSH s majorRank minorRank 0
       else if majorRank = FULL_HOUSE then case_FULL_HOUSE s majorRank minorRank 0 0
       else if majorRank = FOUR_OF_A_KIND then case_FOUR_OF_A_KIND s majorRank minorRank 0 0
       else if majorRank = STRAIGHT_FLUSH then case_STRAIGHT_FLUSH s majorRank minorRank 0 0
       else Inr False))"

section \<open>sortHand\<close>

text \<open>One sweep of the bubble sort: the \<open>for\<close> loop, with the flag it leaves.\<close>

function sortHand_sweep :: "nat \<Rightarrow> bool \<Rightarrow> pstate \<Rightarrow> error + (bool \<times> pstate)" where
  "sortHand_sweep i swapDetector s =
     (if i < HAND_SIZE - 1 then
        bindE (rd (handRank s) i) (\<lambda>a.
        bindE (rd (handRank s) (i + 1)) (\<lambda>b.
          if a > b then
            bindE (wr (handRank s) i b) (\<lambda>hr1.
            bindE (wr hr1 (i + 1) a) (\<lambda>hr2.
            bindE (rd (handSuit s) i) (\<lambda>tempSuit.
            bindE (rd (handSuit s) (i + 1)) (\<lambda>c.
            bindE (wr (handSuit s) i c) (\<lambda>hs1.
            bindE (wr hs1 (i + 1) tempSuit) (\<lambda>hs2.
              sortHand_sweep (i + 1) True (s\<lparr>handRank := hr2, handSuit := hs2\<rparr>)))))))
          else sortHand_sweep (i + 1) swapDetector s))
      else Inr (swapDetector, s))"
  by pat_completeness auto
termination
  by (relation "measure (\<lambda>(i, swapDetector, s). HAND_SIZE - 1 - i)") auto

text \<open>
  The number of inversions of a list: it measures the progress of the bubble sort, and
  is used only to show that the \<open>while\<close> loop of \<open>sortHand\<close> ends.
\<close>

fun inversions :: "int list \<Rightarrow> nat" where
  "inversions [] = 0"
| "inversions (x # xs) = length (filter (\<lambda>y. y < x) xs) + inversions xs"

lemma length_filter_swap:
  assumes "i < length xs" "j < length xs"
  shows "length (filter P (xs[i := xs ! j, j := xs ! i])) = length (filter P xs)"
proof -
  have "mset (xs[i := xs ! j, j := xs ! i]) = mset xs"
    using assms by (simp add: mset_swap)
  then have "size (filter_mset P (mset (xs[i := xs ! j, j := xs ! i])))
               = size (filter_mset P (mset xs))"
    by simp
  then show ?thesis
    by (metis mset_filter size_mset)
qed

lemma inversions_swap:
  "Suc i < length xs \<Longrightarrow> xs ! Suc i < xs ! i \<Longrightarrow>
   inversions (xs[i := xs ! Suc i, Suc i := xs ! i]) < inversions xs"
proof (induction xs arbitrary: i)
  case Nil
  then show ?case by simp
next
  case (Cons x xs)
  show ?case
  proof (cases i)
    case 0
    with Cons.prems obtain y ys where xs: "xs = y # ys"
      by (cases xs) auto
    with 0 Cons.prems have "y < x" by simp
    with 0 xs show ?thesis by auto
  next
    case (Suc k)
    with Cons.prems have k: "Suc k < length xs" "xs ! Suc k < xs ! k"
      by auto
    have "length (filter (\<lambda>y. y < x) (xs[k := xs ! Suc k, Suc k := xs ! k]))
            = length (filter (\<lambda>y. y < x) xs)"
      using k(1) by (intro length_filter_swap) auto
    with Cons.IH [OF k] Suc show ?thesis by simp
  qed
qed

lemma sortHand_sweep_inversions:
  "sortHand_sweep i sw s = Inr (sw', s') \<Longrightarrow>
   inversions (handRank s') \<le> inversions (handRank s) \<and>
   (sw' \<and> \<not> sw \<longrightarrow> inversions (handRank s') < inversions (handRank s))"
proof (induction i sw s rule: sortHand_sweep.induct)
  case (1 i sw s)
  show ?case
  proof (cases "i < HAND_SIZE - 1")
    case False
    with "1.prems" show ?thesis by simp
  next
    case i: True
    show ?thesis
    proof (cases "Suc i < length (handRank s)")
      case False
      with i "1.prems" show ?thesis
        by (auto simp: rd_def split: if_splits)
    next
      case len: True
      show ?thesis
      proof (cases "handRank s ! i > handRank s ! Suc i")
        case False
        with i len "1.prems" have "sortHand_sweep (i + 1) sw s = Inr (sw', s')"
          by (simp add: rd_def)
        with "1.IH"(2) [of "handRank s ! i" "handRank s ! Suc i"] i len False
        show ?thesis by (simp add: rd_def)
      next
        case gt: True
        define hr2 where "hr2 = (handRank s)[i := handRank s ! Suc i, Suc i := handRank s ! i]"
        from i len gt "1.prems" obtain hs2 where
          rec: "sortHand_sweep (i + 1) True (s\<lparr>handRank := hr2, handSuit := hs2\<rparr>) = Inr (sw', s')"
          and hs: "wr (handSuit s) i (handSuit s ! Suc i) = Inr ((handSuit s)[i := handSuit s ! Suc i])"
                  "hs2 = (handSuit s)[i := handSuit s ! Suc i, Suc i := handSuit s ! i]"
                  "Suc i < length (handSuit s)"
          by (auto simp: rd_def wr_def hr2_def split: if_splits)
        have "inversions (handRank s') \<le> inversions hr2"
          using "1.IH"(1) [of "handRank s ! i" "handRank s ! Suc i"
              "(handRank s)[i := handRank s ! Suc i]" hr2
              "handSuit s ! i" "handSuit s ! Suc i"
              "(handSuit s)[i := handSuit s ! Suc i]" hs2] i len gt rec hs
          by (simp add: rd_def wr_def hr2_def)
        moreover have "inversions hr2 < inversions (handRank s)"
          unfolding hr2_def using len gt by (rule inversions_swap)
        ultimately show ?thesis by simp
      qed
    qed
  qed
qed

function sortHand :: "pstate \<Rightarrow> error + pstate" where
  "sortHand s =
     bindE (sortHand_sweep 0 False s) (\<lambda>r.
       if fst r then sortHand (snd r) else Inr (snd r))"
  by pat_completeness auto
termination
proof (relation "measure (\<lambda>s. inversions (handRank s))")
  show "wf (measure (\<lambda>s. inversions (handRank s)))"
    by simp
next
  fix s :: pstate and r
  assume "sortHand_sweep 0 False s = Inr r" and "fst r"
  then have "sortHand_sweep 0 False s = Inr (True, snd r)"
    by (cases r) simp
  from sortHand_sweep_inversions [OF this]
  show "(snd r, s) \<in> measure (\<lambda>s. inversions (handRank s))"
    by simp
qed

section \<open>loadCopyHand and repeatCards\<close>

function loadCopyHand_loop :: "nat \<Rightarrow> pstate \<Rightarrow> error + pstate" where
  "loadCopyHand_loop i s =
     (if i < HAND_SIZE then
        bindE (rd (copyHandRank s) i) (\<lambda>r.
        bindE (wr (handRank s) i r) (\<lambda>hr.
        bindE (rd (copyHandSuit s) i) (\<lambda>c.
        bindE (wr (handSuit s) i c) (\<lambda>hs.
          loadCopyHand_loop (i + 1) (s\<lparr>handRank := hr, handSuit := hs\<rparr>)))))
      else Inr s)"
  by pat_completeness auto
termination
  by (relation "measure (\<lambda>(i, s). HAND_SIZE - i)") auto

definition loadCopyHand :: "pstate \<Rightarrow> error + pstate" where
  "loadCopyHand s = loadCopyHand_loop 0 s"

text \<open>
  \<open>repeatCards\<close> keeps the rank of card \<open>i\<close> in a \<open>char\<close>: the conversion of an \<open>int\<close>
  to a signed 8-bit \<open>char\<close>.
\<close>

definition toChar :: "int \<Rightarrow> int" where
  "toChar v = (v + 128) mod 256 - 128"

function repeatCards_inner :: "int \<Rightarrow> char \<Rightarrow> nat \<Rightarrow> bool \<Rightarrow> pstate \<Rightarrow> error + bool" where
  "repeatCards_inner rank suit j repCard s =
     (if j < HAND_SIZE then
        bindE (rd (handRank s) j) (\<lambda>r.
          if rank = r then
            bindE (rd (handSuit s) j) (\<lambda>c.
              repeatCards_inner rank suit (j + 1) (if suit = c then True else repCard) s)
          else repeatCards_inner rank suit (j + 1) repCard s)
      else Inr repCard)"
  by pat_completeness auto
termination
  by (relation "measure (\<lambda>(rank, suit, j, repCard, s). HAND_SIZE - j)") auto

function repeatCards_outer :: "nat \<Rightarrow> bool \<Rightarrow> pstate \<Rightarrow> error + bool" where
  "repeatCards_outer i repCard s =
     (if i < HAND_SIZE then
        bindE (rd (handRank s) i) (\<lambda>r.
        bindE (rd (handSuit s) i) (\<lambda>suit.
        bindE (repeatCards_inner (toChar r) suit (i + 1) repCard s) (\<lambda>repCard'.
          repeatCards_outer (i + 1) repCard' s)))
      else Inr repCard)"
  by pat_completeness auto
termination
  by (relation "measure (\<lambda>(i, repCard, s). HAND_SIZE - i)") auto

definition repeatCards :: "pstate \<Rightarrow> error + bool" where
  "repeatCards s = repeatCards_outer 0 False s"

section \<open>getProbabilities\<close>

text \<open>\<open>rand()\<close> takes the next value of the list of draws.\<close>

definition rand :: "nat list \<Rightarrow> error + (nat \<times> nat list)" where
  "rand rs = (case rs of [] \<Rightarrow> Inl NoMoreDraws | r # rs' \<Rightarrow> Inr (r, rs'))"

text \<open>
  The \<open>do ... while\<close> loop that draws the replacement card. It returns the accepted
  \<open>randRank\<close> and \<open>randSuit\<close>, the state and the draws that are left.
\<close>

function drawLoop ::
  "int \<Rightarrow> char \<Rightarrow> nat \<Rightarrow> pstate \<Rightarrow> nat list \<Rightarrow> error + (int \<times> char \<times> pstate \<times> nat list)" where
  "drawLoop tempRank tempSuit swapIndex s rs =
     bindE (rand rs) (\<lambda>d1.
     bindE (rand (snd d1)) (\<lambda>d2.
     bindE (rd SUIT_LIST (fst d2 mod SUIT_COUNT)) (\<lambda>randSuit.
       let randRank = int (fst d1 mod RANK_COUNT) + 2 in
       bindE (wr (handRank s) swapIndex randRank) (\<lambda>hr.
       bindE (wr (handSuit s) swapIndex randSuit) (\<lambda>hs.
         let s' = s\<lparr>handRank := hr, handSuit := hs\<rparr>;
             sameHand = (randRank = tempRank \<and> randSuit = tempSuit)
         in bindE (repeatCards s') (\<lambda>rep.
              if rep \<or> sameHand then drawLoop tempRank tempSuit swapIndex s' (snd d2)
              else Inr (randRank, randSuit, s', snd d2)))))))"
  by pat_completeness auto
termination
  by (relation "measure (\<lambda>(tempRank, tempSuit, swapIndex, s, rs). length rs)")
     (auto simp: rand_def split: list.splits)

text \<open>The search for the drawn card after the hand is sorted again.\<close>

function findSwapIndex :: "int \<Rightarrow> char \<Rightarrow> pstate \<Rightarrow> nat \<Rightarrow> nat \<Rightarrow> error + nat" where
  "findSwapIndex randRank randSuit s k swapIndex =
     (if k < HAND_SIZE then
        bindE (rd (handRank s) k) (\<lambda>r.
          if randRank = r then
            bindE (rd (handSuit s) k) (\<lambda>c.
              if randSuit = c then Inr k
              else findSwapIndex randRank randSuit s (k + 1) swapIndex)
          else findSwapIndex randRank randSuit s (k + 1) swapIndex)
      else Inr swapIndex)"
  by pat_completeness auto
termination
  by (relation "measure (\<lambda>(randRank, randSuit, s, k, swapIndex). HAND_SIZE - k)") auto

text \<open>
  The loop over the trials of one position; \<open>n\<close> is \<open>sampleNumber\<close>. It returns
  \<open>numOfImprovements\<close>, the state and the draws that are left.
\<close>

function trialLoop ::
  "nat \<Rightarrow> nat \<Rightarrow> int \<Rightarrow> char \<Rightarrow> nat \<Rightarrow> int \<Rightarrow> pstate \<Rightarrow> nat list
     \<Rightarrow> error + (int \<times> pstate \<times> nat list)" where
  "trialLoop n j tempRank tempSuit swapIndex numOfImprovements s rs =
     (if j < n then
        bindE (drawLoop tempRank tempSuit swapIndex s rs) (\<lambda>d.
        bindE (sortHand (fst (snd (snd d)))) (\<lambda>s2.
        bindE (findSwapIndex (fst d) (fst (snd d)) s2 0 swapIndex) (\<lambda>swapIndex'.
        bindE (isBetterHand s2) (\<lambda>better.
          trialLoop n (j + 1) tempRank tempSuit swapIndex'
            (if better then numOfImprovements + 1 else numOfImprovements)
            s2 (snd (snd (snd d)))))))
      else Inr (numOfImprovements, s, rs))"
  by pat_completeness auto
termination
  by (relation "measure (\<lambda>(n, j, tempRank, tempSuit, swapIndex, num, s, rs). n - j)") auto

text \<open>The loop that stores the percentage at the position of the card in the copy.\<close>

function storeProbability :: "int \<Rightarrow> char \<Rightarrow> rat \<Rightarrow> nat \<Rightarrow> pstate \<Rightarrow> error + pstate" where
  "storeProbability tempRank tempSuit p j s =
     (if j < HAND_SIZE then
        bindE (rd (copyHandSuit s) j) (\<lambda>c.
          if tempSuit = c then
            bindE (rd (copyHandRank s) j) (\<lambda>r.
              if tempRank = r then
                bindE (wr (probabilities s) j p) (\<lambda>ps. Inr (s\<lparr>probabilities := ps\<rparr>))
              else storeProbability tempRank tempSuit p (j + 1) s)
          else storeProbability tempRank tempSuit p (j + 1) s)
      else Inr s)"
  by pat_completeness auto
termination
  by (relation "measure (\<lambda>(tempRank, tempSuit, p, j, s). HAND_SIZE - j)") auto

abbreviation (input) sampleNumber :: nat where "sampleNumber \<equiv> 750000"

function getProbabilities_loop :: "nat \<Rightarrow> nat \<Rightarrow> pstate \<Rightarrow> nat list \<Rightarrow> error + (pstate \<times> nat list)" where
  "getProbabilities_loop n i s rs =
     (if i < HAND_SIZE then
        bindE (loadCopyHand s) (\<lambda>s1.
        bindE (sortHand s1) (\<lambda>s2.
        bindE (rd (handSuit s2) i) (\<lambda>tempSuit.
        bindE (rd (handRank s2) i) (\<lambda>tempRank.
        bindE (trialLoop n 0 tempRank tempSuit i 0 s2 rs) (\<lambda>t.
        bindE (storeProbability tempRank tempSuit
                 (100 * (of_int (fst t) / of_nat n)) 0 (fst (snd t))) (\<lambda>s4.
          getProbabilities_loop n (i + 1) s4 (snd (snd t))))))))
      else Inr (s, rs))"
  by pat_completeness auto
termination
  by (relation "measure (\<lambda>(n, i, s, rs). HAND_SIZE - i)") auto

definition getProbabilities :: "pstate \<Rightarrow> nat list \<Rightarrow> error + (pstate \<times> nat list)" where
  "getProbabilities s rs = getProbabilities_loop sampleNumber 0 s rs"

section \<open>main\<close>

text \<open>
  The body of the \<open>while\<close> loop of \<open>main\<close> for a good line: the hand that \<open>readLine\<close> left
  in \<open>handRank\<close> and \<open>handSuit\<close> is copied, sorted, ranked, and its probabilities are
  estimated.
\<close>

function copyHand_loop :: "nat \<Rightarrow> pstate \<Rightarrow> error + pstate" where
  "copyHand_loop i s =
     (if i < HAND_SIZE then
        bindE (rd (handRank s) i) (\<lambda>r.
        bindE (wr (copyHandRank s) i r) (\<lambda>cr.
        bindE (rd (handSuit s) i) (\<lambda>c.
        bindE (wr (copyHandSuit s) i c) (\<lambda>cs.
          copyHand_loop (i + 1) (s\<lparr>copyHandRank := cr, copyHandSuit := cs\<rparr>)))))
      else Inr s)"
  by pat_completeness auto
termination
  by (relation "measure (\<lambda>(i, s). HAND_SIZE - i)") auto

definition classify :: "pstate \<Rightarrow> error + pstate" where
  "classify s = bindE (sortHand s) getHandRank"

definition main_line :: "nat \<Rightarrow> pstate \<Rightarrow> nat list \<Rightarrow> error + (pstate \<times> nat list)" where
  "main_line n s rs =
     bindE (copyHand_loop 0 s) (\<lambda>s1.
     bindE (sortHand s1) (\<lambda>s2.
     bindE (getHandRank s2) (\<lambda>s3.
       getProbabilities_loop n 0 s3 rs)))"

section \<open>Well-formed hands\<close>

text \<open>
  The arrays have their declared sizes. A valid hand has five distinct cards with ranks
  from 2 to 14 (\<open>rankToInt\<close>) and suits of \<open>SUIT_LIST\<close>, as \<open>readLine\<close> accepts them.
\<close>

definition cards :: "pstate \<Rightarrow> (int \<times> char) list" where
  "cards s = zip (handRank s) (handSuit s)"

definition wf_arrays :: "pstate \<Rightarrow> bool" where
  "wf_arrays s \<longleftrightarrow>
     length (handRank s) = HAND_SIZE \<and> length (handSuit s) = HAND_SIZE \<and>
     length (copyHandRank s) = HAND_SIZE \<and> length (copyHandSuit s) = HAND_SIZE \<and>
     length (probabilities s) = HAND_SIZE \<and> length (pokerHandID s) = 3"

definition valid_hand :: "pstate \<Rightarrow> bool" where
  "valid_hand s \<longleftrightarrow>
     wf_arrays s \<and> (\<forall>r\<in>set (handRank s). 2 \<le> r \<and> r \<le> 14) \<and>
     set (handSuit s) \<subseteq> set SUIT_LIST \<and> distinct (cards s)"

text \<open>
  What the straight and flush detectors compute on a hand with ranks \<open>a, b, c, d, e\<close>
  and suits \<open>p, q, r, t, u\<close>, used to state the results of the detectors.
\<close>

definition straightRank :: "int \<Rightarrow> int \<Rightarrow> int \<Rightarrow> int \<Rightarrow> int \<Rightarrow> int" where
  "straightRank a b c d e =
     (if a = 2 \<and> b = 3 \<and> c = 4 \<and> d = 5 \<and> e = 14 then d
      else if a = b - 1 \<and> b = c - 1 \<and> c = d - 1 \<and> d = e - 1 then e else 0)"

definition sameSuit :: "char \<Rightarrow> char \<Rightarrow> char \<Rightarrow> char \<Rightarrow> char \<Rightarrow> bool" where
  "sameSuit p q r t u \<longleftrightarrow> p = q \<and> p = r \<and> p = t \<and> p = u"


text \<open>
  Notions used to state the claims: the state after one exchange of the bubble sort, the
  parts of the state that sorting leaves alone, a list of ranks that forms a straight
  (consecutive when sorted, or the wheel), and a list of suits that are all the same.
\<close>

definition swapCards :: "nat \<Rightarrow> pstate \<Rightarrow> pstate" where
  "swapCards i s =
     s\<lparr>handRank := (handRank s)[i := handRank s ! Suc i, Suc i := handRank s ! i],
       handSuit := (handSuit s)[i := handSuit s ! Suc i, Suc i := handSuit s ! i]\<rparr>"

definition sameRest :: "pstate \<Rightarrow> pstate \<Rightarrow> bool" where
  "sameRest s s' \<longleftrightarrow>
     copyHandRank s' = copyHandRank s \<and> copyHandSuit s' = copyHandSuit s \<and>
     probabilities s' = probabilities s \<and> pokerHandID s' = pokerHandID s"

definition formsStraight :: "int list \<Rightarrow> bool" where
  "formsStraight rs \<longleftrightarrow>
     (let xs = sort rs
      in xs = map (\<lambda>k. hd xs + k) [0, 1, 2, 3, 4] \<or> xs = [2, 3, 4, 5, 14])"

definition allSameSuit :: "char list \<Rightarrow> bool" where
  "allSameSuit hs \<longleftrightarrow> (\<forall>c\<in>set hs. c = hd hs)"

text \<open>
  The words behind \<open>handRank\<close>. The loops of \<open>isXOfAKind\<close> and \<open>isFullHouse\<close> can read
  \<open>handRank[5]\<close>, the word that follows the array in memory. The program does not fix
  what that word holds. \<open>behind m s\<close> is the state \<open>s\<close> with the words \<open>m\<close> stored behind
  \<open>handRank\<close>: the loops of the program still run over the first \<open>HAND_SIZE\<close> cells, and
  a read of \<open>handRank[5]\<close> returns the first word of \<open>m\<close>.
\<close>

definition behind :: "int list \<Rightarrow> pstate \<Rightarrow> pstate" where
  "behind m s = s\<lparr>handRank := handRank s @ m\<rparr>"




text \<open>
  The parts of the state that \<open>getProbabilities\<close> must leave alone, and the original hand
  as the copies hold it.
\<close>

definition frame :: "pstate \<Rightarrow> pstate \<Rightarrow> bool" where
  "frame s s' \<longleftrightarrow>
     pokerHandID s' = pokerHandID s \<and> copyHandRank s' = copyHandRank s \<and>
     copyHandSuit s' = copyHandSuit s"

definition original :: "pstate \<Rightarrow> (int \<times> char) list" where
  "original s = zip (copyHandRank s) (copyHandSuit s)"

text \<open>
  The states at the head of the loop over the trials, as a step relation:
  \<open>trial_head s0 tempRank tempSuit swapIndex s\<close> holds when \<open>getProbabilities\<close>, run on
  copies as in \<open>s0\<close>, can stand before the \<open>do ... while\<close> loop in state \<open>s\<close> with these
  values of its variables. Rule \<open>position\<close> is the entry of the loop for position \<open>i\<close>, from
  any state with these copies and a hand of five cards; rule \<open>trial\<close> is one trial.
  \<open>trial_inv\<close> is the invariant of these states: the hand with the card at \<open>swapIndex\<close> put
  back is the original hand.
\<close>

inductive trial_head :: "pstate \<Rightarrow> int \<Rightarrow> char \<Rightarrow> nat \<Rightarrow> pstate \<Rightarrow> bool" for s0 where
  position:
    "\<lbrakk>length (handRank s) = HAND_SIZE; length (handSuit s) = HAND_SIZE;
      copyHandRank s = copyHandRank s0; copyHandSuit s = copyHandSuit s0; i < HAND_SIZE; loadCopyHand s = Inr s1; sortHand s1 = Inr s2;
      rd (handSuit s2) i = Inr tempSuit; rd (handRank s2) i = Inr tempRank\<rbrakk>
     \<Longrightarrow> trial_head s0 tempRank tempSuit i s2"
| trial:
    "\<lbrakk>trial_head s0 tempRank tempSuit swapIndex s;
      drawLoop tempRank tempSuit swapIndex s rs = Inr (randRank, randSuit, s1, rs1);
      sortHand s1 = Inr s2;
      findSwapIndex randRank randSuit s2 0 swapIndex = Inr swapIndex'\<rbrakk>
     \<Longrightarrow> trial_head s0 tempRank tempSuit swapIndex' s2"

definition valid_original :: "pstate \<Rightarrow> bool" where
  "valid_original s \<longleftrightarrow>
     length (copyHandRank s) = HAND_SIZE \<and> length (copyHandSuit s) = HAND_SIZE \<and>
     (\<forall>r\<in>set (copyHandRank s). 2 \<le> r \<and> r \<le> 14) \<and> distinct (original s)"

definition trial_inv :: "pstate \<Rightarrow> int \<Rightarrow> char \<Rightarrow> nat \<Rightarrow> pstate \<Rightarrow> bool" where
  "trial_inv s0 tempRank tempSuit swapIndex s \<longleftrightarrow>
     length (handRank s) = 5 \<and> length (handSuit s) = 5 \<and> swapIndex < 5 \<and>
     (\<forall>x\<in>set (handRank s). 2 \<le> x \<and> x \<le> 14) \<and>
     mset ((cards s)[swapIndex := (tempRank, tempSuit)]) = mset (original s0)"

text \<open>
  Hands on which a detector reads \<open>handRank[5]\<close>: four of a kind, a full house, two pair.
  Then an input line; two pairs in two orders, the first holding its own key; and a
  three-of-a-kind baseline with the four-of-a-kind candidate that one draw makes of it.
\<close>

definition state_of :: "int list \<Rightarrow> char list \<Rightarrow> int list \<Rightarrow> char list \<Rightarrow> int list \<Rightarrow> pstate" where
  "state_of hr hs cr cs k =
     \<lparr>handRank = hr, handSuit = hs, copyHandRank = cr, copyHandSuit = cs,
      probabilities = [0, 0, 0, 0, 0], pokerHandID = k\<rparr>"

definition four_example :: pstate where
  "four_example = state_of [2, 2, 2, 2, 3] ''CDHSC'' [2, 2, 2, 2, 3] ''CDHSC'' [0, 0, 0]"

definition full_example :: pstate where
  "full_example = state_of [2, 2, 2, 3, 3] ''CDHCD'' [2, 2, 2, 3, 3] ''CDHCD'' [0, 0, 0]"

definition twopair_example :: pstate where
  "twopair_example = state_of [2, 2, 3, 3, 4] ''CDCDC'' [2, 2, 3, 3, 4] ''CDCDC'' [0, 0, 0]"

definition line_example :: pstate where
  "line_example = state_of [3, 3, 3, 2, 5] ''CDHSS'' [0, 0, 0, 0, 0] ''CCCCC'' [0, 0, 0]"





text \<open>Example hands.\<close>

definition flush_example :: pstate where
  "flush_example = \<lparr>handRank = [9, 2, 14, 5, 7], handSuit = ''CCCCC'',
     copyHandRank = [9, 2, 14, 5, 7], copyHandSuit = ''CCCCC'',
     probabilities = [0, 0, 0, 0, 0], pokerHandID = [0, 0, 0]\<rparr>"

definition permuted_example :: pstate where
  "permuted_example = \<lparr>handRank = [7, 14, 9, 2, 5], handSuit = ''CCCCC'',
     copyHandRank = [7, 14, 9, 2, 5], copyHandSuit = ''CCCCC'',
     probabilities = [0, 0, 0, 0, 0], pokerHandID = [0, 0, 0]\<rparr>"

definition wheel_example :: pstate where
  "wheel_example = \<lparr>handRank = [14, 2, 3, 4, 5], handSuit = ''HHHHH'',
     copyHandRank = [14, 2, 3, 4, 5], copyHandSuit = ''HHHHH'',
     probabilities = [0, 0, 0, 0, 0], pokerHandID = [0, 0, 0]\<rparr>"

text \<open>A high-card hand that holds its own key.\<close>

definition tie_example :: pstate where
  "tie_example = \<lparr>handRank = [2, 5, 7, 9, 14], handSuit = ''CDHSC'',
     copyHandRank = [9, 2, 14, 5, 7], copyHandSuit = ''SCCDH'',
     probabilities = [0, 0, 0, 0, 0], pokerHandID = [1, 14, 0]\<rparr>"

section \<open>Unfolding the loops\<close>

text \<open>
  The equations of the loops are applied by hand: as rewrite rules they would unfold a
  loop whose bound is \<open>sampleNumber\<close> without end.
\<close>

declare isFlush_scan.simps [simp del] isFlush_sum.simps [simp del]
  isStraight_special.simps [simp del] isStraight_run.simps [simp del]
  isXOfAKind_loop.simps [simp del] isFullHouse_loop.simps [simp del]
  isTwoPair_loop.simps [simp del] highCard_loop.simps [simp del]
  sortHand_sweep.simps [simp del] sortHand.simps [simp del]
  loadCopyHand_loop.simps [simp del] repeatCards_inner.simps [simp del]
  repeatCards_outer.simps [simp del] drawLoop.simps [simp del]
  findSwapIndex.simps [simp del] trialLoop.simps [simp del]
  storeProbability.simps [simp del] getProbabilities_loop.simps [simp del]
  copyHand_loop.simps [simp del]

lemma bindE_eq_Inr: "bindE m f = Inr y \<longleftrightarrow> (\<exists>v. m = Inr v \<and> f v = Inr y)"
  by (cases m) simp_all

lemma bindE_eq_Inl: "bindE m f = Inl e \<longleftrightarrow> m = Inl e \<or> (\<exists>v. m = Inr v \<and> f v = Inl e)"
  by (cases m) simp_all

section \<open>The detectors on a hand of five cards\<close>

lemma isXOfAKind_pokerHandID [simp]: "isXOfAKind x (s\<lparr>pokerHandID := p\<rparr>) = isXOfAKind x s"
  by (simp add: isXOfAKind_def)
lemma isFullHouse_pokerHandID [simp]: "isFullHouse (s\<lparr>pokerHandID := p\<rparr>) = isFullHouse s"
  by (simp add: isFullHouse_def)
lemma isTwoPair_pokerHandID [simp]: "isTwoPair (s\<lparr>pokerHandID := p\<rparr>) = isTwoPair s"
  by (simp add: isTwoPair_def cong: if_cong)
lemma isStraight_pokerHandID [simp]: "isStraight (s\<lparr>pokerHandID := p\<rparr>) = isStraight s"
  by (simp add: isStraight_def cong: if_cong)
lemma isFlush_pokerHandID [simp]: "isFlush (s\<lparr>pokerHandID := p\<rparr>) = isFlush s"
  by (simp add: isFlush_def cong: if_cong)
lemma highCard_pokerHandID [simp]: "highCard (s\<lparr>pokerHandID := p\<rparr>) = highCard s"
  by (simp add: highCard_def)

lemma isXOfAKind2_eq:
  "handRank s = [a, b, c, d, e] \<Longrightarrow>
   isXOfAKind 2 s = Inr (if a = b then a else if b = c then b else if c = d then c
                         else if d = e then d else 0)"
  by (simp add: isXOfAKind_def isXOfAKind_loop.simps rd_def Let_def)

lemma isXOfAKind3_eq:
  "handRank s = [a, b, c, d, e] \<Longrightarrow>
   isXOfAKind 3 s =
     (if a = b then
        (if b = c then Inr b
         else if c = d then (if d = e then Inr d else Inl OutOfBounds)
         else if d = e then Inl OutOfBounds else Inr 0)
      else if b = c then
        (if c = d then Inr c else if d = e then Inl OutOfBounds else Inr 0)
      else if c = d \<and> d = e then Inr d else Inr 0)"
  by (simp add: isXOfAKind_def isXOfAKind_loop.simps rd_def Let_def)

lemma isXOfAKind4_eq:
  "handRank s = [a, b, c, d, e] \<Longrightarrow>
   isXOfAKind 4 s =
     (if a = b then
        (if b = c then (if c = d then Inr c else if d = e then Inl OutOfBounds else Inr 0)
         else if c = d \<and> d = e then Inl OutOfBounds else Inr 0)
      else if b = c \<and> c = d \<and> d = e then Inr d else Inr 0)"
  by (simp add: isXOfAKind_def isXOfAKind_loop.simps rd_def Let_def)

lemma isFullHouse_eq:
  "handRank s = [a, b, c, d, e] \<Longrightarrow>
   isFullHouse s =
     (if a = b then
        (if b = c then (if c = d \<or> d = e then Inl OutOfBounds else Inr 0)
         else if c = d \<and> d = e then Inl OutOfBounds else Inr 0)
      else if b = c \<and> c = d \<and> d = e then Inl OutOfBounds else Inr 0)"
  by (simp add: isFullHouse_def isFullHouse_loop.simps rd_def Let_def)

lemma isTwoPair_eq:
  "handRank s = [a, b, c, d, e] \<Longrightarrow>
   isTwoPair s =
     Inr (if a = b then
            (if b = c then 0
             else if c = d then (if d = e then 0 else c)
             else if d = e then e else 0)
          else if b = c \<and> c \<noteq> d \<and> d = e then e else 0)"
  by (simp add: isTwoPair_def isTwoPair_loop.simps rd_def Let_def)


lemma straightRank_pair [simp]:
  "straightRank a a c d e = 0" "straightRank a b b d e = 0"
  "straightRank a b c c e = 0" "straightRank a b c d d = 0"
  by (simp_all add: straightRank_def)

lemma isStraight_eq:
  "handRank s = [a, b, c, d, e] \<Longrightarrow> isStraight s = Inr (straightRank a b c d e)"
  by (simp add: isStraight_def isStraight_special.simps isStraight_run.simps
        specialStraight_def rd_def straightRank_def)

lemma isFlush_eq:
  "handRank s = [a, b, c, d, e] \<Longrightarrow> handSuit s = [p, q, r, t, u] \<Longrightarrow>
   isFlush s = Inr (if sameSuit p q r t u then a + b + c + d + e else 0)"
  by (simp add: isFlush_def isFlush_scan.simps isFlush_sum.simps rd_def sameSuit_def)

lemma highCard_eq:
  "handRank s = [a, b, c, d, e] \<Longrightarrow> 0 < a \<Longrightarrow> a \<le> b \<Longrightarrow> b \<le> c \<Longrightarrow> c \<le> d \<Longrightarrow> d \<le> e \<Longrightarrow>
   highCard s = Inr e"
  by (simp add: highCard_def highCard_loop.simps rd_def)

lemma getHandRank_eq:
  assumes hr: "handRank s = [a, b, c, d, e]" and hs: "handSuit s = [p, q, r, t, u]"
    and id: "pokerHandID s = [x, y, z]"
    and srt: "a \<le> b" "b \<le> c" "c \<le> d" "d \<le> e" and pos: "0 < a"
    and nf: "sameSuit p q r t u \<longrightarrow> a \<noteq> b \<and> b \<noteq> c \<and> c \<noteq> d \<and> d \<noteq> e"
  shows "getHandRank s =
     (if sameSuit p q r t u \<and> straightRank a b c d e \<noteq> 0
        then Inr (s\<lparr>pokerHandID := [STRAIGHT_FLUSH, straightRank a b c d e, 0]\<rparr>)
      else if (a = b \<and> b = c \<and> c = d) \<or> (b = c \<and> c = d \<and> d = e)
        then Inr (s\<lparr>pokerHandID := [FOUR_OF_A_KIND, c, 0]\<rparr>)
      else if (a = b \<and> b = c \<and> d = e) \<or> (a = b \<and> c = d \<and> d = e)
        then Inl OutOfBounds
      else if sameSuit p q r t u
        then Inr (s\<lparr>pokerHandID := [FLUSH, a + b + c + d + e, 0]\<rparr>)
      else if straightRank a b c d e \<noteq> 0
        then Inr (s\<lparr>pokerHandID := [STRAIGHT, straightRank a b c d e, 0]\<rparr>)
      else if (a = b \<and> b = c) \<or> (b = c \<and> c = d) \<or> (c = d \<and> d = e)
        then Inr (s\<lparr>pokerHandID := [THREE_OF_A_KIND, c, 0]\<rparr>)
      else if (a = b \<and> c = d) \<or> (a = b \<and> d = e) \<or> (b = c \<and> d = e)
        then Inl OutOfBounds
      else if a = b \<or> b = c \<or> c = d \<or> d = e
        then Inr (s\<lparr>pokerHandID :=
               [ONE_PAIR, if a = b then a else if b = c then b else if c = d then c else d, 0]\<rparr>)
      else Inr (s\<lparr>pokerHandID := [HIGH_CARD, e, 0]\<rparr>))"
proof -
  note det = isXOfAKind2_eq [OF hr] isXOfAKind3_eq [OF hr] isXOfAKind4_eq [OF hr]
    isFullHouse_eq [OF hr] isTwoPair_eq [OF hr] isStraight_eq [OF hr] isFlush_eq [OF hr hs]
    highCard_eq [OF hr pos srt]
  have sum: "a + b + c + d + e \<noteq> 0"
    using srt pos by arith
  show ?thesis
    using id srt pos nf sum
    by (cases "a = b"; cases "b = c"; cases "c = d"; cases "d = e";
        simp add: getHandRank_def setDigit_def wr_def det)
qed


lemma list5: "length xs = 5 \<Longrightarrow> \<exists>a b c d e. xs = [a, b, c, d, e]"
  by (auto simp: eval_nat_numeral length_Suc_conv)

lemma list3: "length xs = 3 \<Longrightarrow> \<exists>a b c. xs = [a, b, c]"
  by (auto simp: eval_nat_numeral length_Suc_conv)

section \<open>sortHand sorts the hand\<close>

lemma sortHand_sweep_step:
  "i < 4 \<Longrightarrow> Suc i < length (handRank s) \<Longrightarrow> Suc i < length (handSuit s) \<Longrightarrow>
   sortHand_sweep i sw s =
     (if handRank s ! i > handRank s ! Suc i then sortHand_sweep (Suc i) True (swapCards i s)
      else sortHand_sweep (Suc i) sw s)"
  by (subst sortHand_sweep.simps) (simp add: rd_def wr_def swapCards_def)

lemma sortHand_sweep_end: "\<not> i < 4 \<Longrightarrow> sortHand_sweep i sw s = Inr (sw, s)"
  by (subst sortHand_sweep.simps) simp

lemma cards_swapCards:
  "Suc i < length (handRank s) \<Longrightarrow> Suc i < length (handSuit s) \<Longrightarrow>
   mset (cards (swapCards i s)) = mset (cards s)"
proof -
  assume a: "Suc i < length (handRank s)" "Suc i < length (handSuit s)"
  have "cards (swapCards i s) = (cards s)[i := cards s ! Suc i, Suc i := cards s ! i]"
    using a by (simp add: cards_def swapCards_def zip_update [symmetric])
  moreover have "Suc i < length (cards s)" "i < length (cards s)"
    using a by (simp_all add: cards_def)
  ultimately show ?thesis
    by (simp add: mset_swap)
qed

lemma sortHand_sweep_props:
  assumes "length (handRank s) = 5" "length (handSuit s) = 5" "i \<le> 4"
  shows "\<exists>sw' s'. sortHand_sweep i sw s = Inr (sw', s') \<and>
           length (handRank s') = 5 \<and> length (handSuit s') = 5 \<and>
           mset (cards s') = mset (cards s) \<and> sameRest s s' \<and> (sw \<longrightarrow> sw') \<and>
           (\<not> sw' \<longrightarrow> s' = s \<and> (\<forall>k. i \<le> k \<and> k < 4 \<longrightarrow> handRank s ! k \<le> handRank s ! Suc k))"
  using assms
proof (induction "4 - i" arbitrary: i sw s)
  case 0
  then show ?case
    by (simp add: sortHand_sweep_end sameRest_def)
next
  case (Suc n)
  then have i: "i < 4" "Suc i < length (handRank s)" "Suc i < length (handSuit s)"
    and n: "n = 4 - Suc i" and i': "Suc i \<le> 4"
    by simp_all
  show ?case
  proof (cases "handRank s ! i > handRank s ! Suc i")
    case True
    let ?t = "swapCards i s"
    have len: "length (handRank ?t) = 5" "length (handSuit ?t) = 5"
      using Suc.prems by (simp_all add: swapCards_def)
    from Suc.hyps(1) [OF n len i', of True]
    obtain sw' s' where r: "sortHand_sweep (Suc i) True ?t = Inr (sw', s')"
      "length (handRank s') = 5" "length (handSuit s') = 5"
      "mset (cards s') = mset (cards ?t)" "sameRest ?t s'" "sw'"
      by auto
    have "sameRest s s'"
      using r(5) by (simp add: sameRest_def swapCards_def)
    with r True i show ?thesis
      by (auto simp: sortHand_sweep_step cards_swapCards)
  next
    case False
    from Suc.hyps(1) [OF n Suc.prems(1,2) i', of sw]
    obtain sw' s' where r: "sortHand_sweep (Suc i) sw s = Inr (sw', s')"
      "length (handRank s') = 5" "length (handSuit s') = 5"
      "mset (cards s') = mset (cards s)" "sameRest s s'" "sw \<longrightarrow> sw'"
      "\<not> sw' \<longrightarrow> s' = s \<and> (\<forall>k. Suc i \<le> k \<and> k < 4 \<longrightarrow> handRank s ! k \<le> handRank s ! Suc k)"
      by auto
    have "\<not> sw' \<longrightarrow> (\<forall>k. i \<le> k \<and> k < 4 \<longrightarrow> handRank s ! k \<le> handRank s ! Suc k)"
    proof (intro impI allI)
      fix k assume "\<not> sw'" "i \<le> k \<and> k < 4"
      with r(7) False show "handRank s ! k \<le> handRank s ! Suc k"
        by (cases "k = i") auto
    qed
    with r False i show ?thesis
      by (auto simp: sortHand_sweep_step)
  qed
qed

lemma sortHand_props:
  assumes "length (handRank s) = 5" "length (handSuit s) = 5"
  shows "\<exists>s'. sortHand s = Inr s' \<and> sorted (handRank s') \<and>
           length (handRank s') = 5 \<and> length (handSuit s') = 5 \<and>
           mset (cards s') = mset (cards s) \<and> sameRest s s'"
  using assms
proof (induction s rule: sortHand.induct)
  case (1 s)
  from sortHand_sweep_props [OF "1.prems", of 0 False]
  obtain sw' s' where r: "sortHand_sweep 0 False s = Inr (sw', s')"
    "length (handRank s') = 5" "length (handSuit s') = 5"
    "mset (cards s') = mset (cards s)" "sameRest s s'"
    "\<not> sw' \<longrightarrow> s' = s \<and> (\<forall>k. k < 4 \<longrightarrow> handRank s ! k \<le> handRank s ! Suc k)"
    by auto
  show ?case
  proof (cases sw')
    case True
    from "1.IH" [of "(sw', s')"] r True
    obtain s'' where "sortHand s' = Inr s''" "sorted (handRank s'')"
      "length (handRank s'') = 5" "length (handSuit s'') = 5"
      "mset (cards s'') = mset (cards s')" "sameRest s' s''"
      by auto
    with r True show ?thesis
      by (subst sortHand.simps) (auto simp: sameRest_def)
  next
    case False
    with r have "\<forall>k. Suc k < length (handRank s) \<longrightarrow> handRank s ! k \<le> handRank s ! Suc k"
      using "1.prems" by auto
    then have "sorted (handRank s)"
      by (simp add: sorted_iff_nth_Suc)
    with r False "1.prems" show ?thesis
      by (subst sortHand.simps) (auto simp: sameRest_def)
  qed
qed

lemma ranks_of_cards: "length (handRank s) = length (handSuit s) \<Longrightarrow> map fst (cards s) = handRank s"
  by (simp add: cards_def)

lemma suits_of_cards: "length (handRank s) = length (handSuit s) \<Longrightarrow> map snd (cards s) = handSuit s"
  by (simp add: cards_def)

lemma mset_cards_ranks:
  assumes "mset (cards s') = mset (cards s)"
    and "length (handRank s) = length (handSuit s)" "length (handRank s') = length (handSuit s')"
  shows "mset (handRank s') = mset (handRank s)" "mset (handSuit s') = mset (handSuit s)"
proof -
  have "mset (map fst (cards s')) = mset (map fst (cards s))"
       "mset (map snd (cards s')) = mset (map snd (cards s))"
    using assms(1) by (simp_all only: mset_map)
  with assms(2,3) show "mset (handRank s') = mset (handRank s)"
    "mset (handSuit s') = mset (handSuit s)"
    by (simp_all add: ranks_of_cards suits_of_cards)
qed

lemma sortHand_sort:
  assumes "length (handRank s) = 5" "length (handSuit s) = 5"
  shows "\<exists>s'. sortHand s = Inr s' \<and> handRank s' = sort (handRank s) \<and>
           length (handSuit s') = 5 \<and> mset (handSuit s') = mset (handSuit s) \<and>
           mset (cards s') = mset (cards s) \<and> sameRest s s'"
proof -
  from sortHand_props [OF assms] obtain s' where s': "sortHand s = Inr s'"
    "sorted (handRank s')" "length (handRank s') = 5" "length (handSuit s') = 5"
    "mset (cards s') = mset (cards s)" "sameRest s s'"
    by auto
  from mset_cards_ranks [OF s'(5)] assms s'(3,4)
  have m: "mset (handRank s') = mset (handRank s)" "mset (handSuit s') = mset (handSuit s)"
    by simp_all
  from m(1) s'(2) have "sort (handRank s) = handRank s'"
    by (rule properties_for_sort)
  with s' m show ?thesis by auto
qed

lemma valid_hand_sortHand:
  assumes "valid_hand s"
  shows "\<exists>s'. sortHand s = Inr s' \<and> valid_hand s' \<and> handRank s' = sort (handRank s) \<and>
           mset (handSuit s') = mset (handSuit s) \<and> mset (cards s') = mset (cards s) \<and>
           sameRest s s'"
proof -
  from assms have len: "length (handRank s) = 5" "length (handSuit s) = 5"
    by (simp_all add: valid_hand_def wf_arrays_def)
  from sortHand_sort [OF len] obtain s' where s': "sortHand s = Inr s'"
    "handRank s' = sort (handRank s)" "length (handSuit s') = 5"
    "mset (handSuit s') = mset (handSuit s)" "mset (cards s') = mset (cards s)" "sameRest s s'"
    by auto
  have "set (handSuit s') = set (handSuit s)"
    using s'(4) by (rule mset_eq_setD)
  moreover have "distinct (cards s') = distinct (cards s)"
    using s'(5) by (rule mset_eq_imp_distinct_iff)
  ultimately have "valid_hand s'"
    using assms s'(2,3,6) len by (simp add: valid_hand_def wf_arrays_def sameRest_def)
  with s' show ?thesis by auto
qed

lemma valid_sorted_lists:
  assumes v: "valid_hand s" and srt: "sorted (handRank s)"
  obtains a b c d e p q r t u x y z where
    "handRank s = [a, b, c, d, e]" "handSuit s = [p, q, r, t, u]" "pokerHandID s = [x, y, z]"
    "a \<le> b" "b \<le> c" "c \<le> d" "d \<le> e" "0 < a"
    "sameSuit p q r t u \<longrightarrow> a \<noteq> b \<and> b \<noteq> c \<and> c \<noteq> d \<and> d \<noteq> e"
proof -
  from v obtain a b c d e where hr: "handRank s = [a, b, c, d, e]"
    by (auto simp: valid_hand_def wf_arrays_def dest: list5)
  from v obtain p q r t u where hs: "handSuit s = [p, q, r, t, u]"
    by (auto simp: valid_hand_def wf_arrays_def dest: list5)
  from v obtain x y z where id: "pokerHandID s = [x, y, z]"
    by (auto simp: valid_hand_def wf_arrays_def dest: list3)
  from srt hr have srt': "a \<le> b" "b \<le> c" "c \<le> d" "d \<le> e"
    by simp_all
  from v hr have pos: "0 < a"
    by (auto simp: valid_hand_def)
  from v hr hs have nf: "sameSuit p q r t u \<longrightarrow> a \<noteq> b \<and> b \<noteq> c \<and> c \<noteq> d \<and> d \<noteq> e"
    by (auto simp: valid_hand_def cards_def sameSuit_def)
  from hr hs id srt' pos nf show ?thesis
    by (rule that)
qed

lemma sameSuit_set: "sameSuit p q r t u \<longleftrightarrow> (\<exists>c. set [p, q, r, t, u] = {c})"
  by (auto simp: sameSuit_def)

lemma allSameSuit_set: "hs \<noteq> [] \<Longrightarrow> allSameSuit hs \<longleftrightarrow> (\<exists>c. set hs = {c})"
  by (cases hs) (auto simp: allSameSuit_def)

lemma straightRank_formsStraight:
  "straightRank a b c d e \<noteq> 0 \<Longrightarrow> sort rs = [a, b, c, d, e] \<Longrightarrow> formsStraight rs"
  by (auto simp: straightRank_def formsStraight_def split: if_splits)

section \<open>The example hands are valid\<close>

lemma examples_valid:
  "valid_hand four_example \<and> sorted (handRank four_example) \<and>
   valid_hand full_example \<and> sorted (handRank full_example) \<and>
   valid_hand twopair_example \<and> sorted (handRank twopair_example) \<and>
   valid_hand line_example"
  by (simp add: valid_hand_def wf_arrays_def cards_def SUIT_LIST_def state_of_def
        four_example_def full_example_def twopair_example_def line_example_def)

section \<open>Frame of getProbabilities\<close>

lemma frame_refl [simp]: "frame s s"
  by (simp add: frame_def)

lemma frame_trans: "frame s t \<Longrightarrow> frame t u \<Longrightarrow> frame s u"
  by (simp add: frame_def)

lemma frame_hand [simp]: "frame s (t\<lparr>handRank := hr, handSuit := hs\<rparr>) = frame s t"
  "frame (t\<lparr>handRank := hr, handSuit := hs\<rparr>) s = frame t s"
  by (simp_all add: frame_def)

lemma loadCopyHand_loop_frame: "loadCopyHand_loop i s = Inr s' \<Longrightarrow> frame s s'"
proof (induction i s rule: loadCopyHand_loop.induct)
  case (1 i s)
  show ?case
  proof (cases "i < HAND_SIZE")
    case False
    with "1.prems" show ?thesis
      by (simp add: loadCopyHand_loop.simps)
  next
    case True
    with "1.prems" obtain r hr c hs where
      "rd (copyHandRank s) i = Inr r" "wr (handRank s) i r = Inr hr"
      "rd (copyHandSuit s) i = Inr c" "wr (handSuit s) i c = Inr hs"
      "loadCopyHand_loop (i + 1) (s\<lparr>handRank := hr, handSuit := hs\<rparr>) = Inr s'"
      by (subst (asm) loadCopyHand_loop.simps) (auto simp: bindE_eq_Inr)
    from "1.IH" [OF True this] show ?thesis
      by simp
  qed
qed

lemma sortHand_sweep_frame: "sortHand_sweep i sw s = Inr (sw', s') \<Longrightarrow> frame s s'"
proof (induction i sw s rule: sortHand_sweep.induct)
  case (1 i sw s)
  show ?case
  proof (cases "i < HAND_SIZE - 1")
    case False
    with "1.prems" show ?thesis
      by (simp add: sortHand_sweep.simps)
  next
    case True
    with "1.prems" obtain a b where ab: "rd (handRank s) i = Inr a" "rd (handRank s) (i + 1) = Inr b"
      by (subst (asm) sortHand_sweep.simps) (auto simp: bindE_eq_Inr)
    show ?thesis
    proof (cases "a > b")
      case False
      with True ab "1.prems" have "sortHand_sweep (i + 1) sw s = Inr (sw', s')"
        by (subst (asm) sortHand_sweep.simps) simp
      from "1.IH"(2) [OF True ab False this] show ?thesis .
    next
      case gt: True
      with True ab "1.prems" obtain hr1 hr2 tempSuit c hs1 hs2 where
        "wr (handRank s) i b = Inr hr1" "wr hr1 (i + 1) a = Inr hr2"
        "rd (handSuit s) i = Inr tempSuit" "rd (handSuit s) (i + 1) = Inr c"
        "wr (handSuit s) i c = Inr hs1" "wr hs1 (i + 1) tempSuit = Inr hs2"
        "sortHand_sweep (i + 1) True (s\<lparr>handRank := hr2, handSuit := hs2\<rparr>) = Inr (sw', s')"
        by (subst (asm) sortHand_sweep.simps) (auto simp: bindE_eq_Inr)
      from "1.IH"(1) [OF True ab gt this] show ?thesis
        by simp
    qed
  qed
qed

lemma sortHand_frame: "sortHand s = Inr s' \<Longrightarrow> frame s s'"
proof (induction s rule: sortHand.induct)
  case (1 s)
  from "1.prems" obtain r where r: "sortHand_sweep 0 False s = Inr r"
    "(if fst r then sortHand (snd r) else Inr (snd r)) = Inr s'"
    by (subst (asm) sortHand.simps) (auto simp: bindE_eq_Inr)
  from r(1) have f: "frame s (snd r)"
    by (cases r) (auto dest: sortHand_sweep_frame)
  show ?case
  proof (cases "fst r")
    case True
    with r(2) have "sortHand (snd r) = Inr s'" by simp
    from "1.IH" [OF r(1) True this] f show ?thesis
      by (rule frame_trans [rotated])
  next
    case False
    with r(2) f show ?thesis by simp
  qed
qed

lemma drawLoop_frame:
  "drawLoop tempRank tempSuit swapIndex s rs = Inr (r, c, s', rs') \<Longrightarrow> frame s s'"
proof (induction tempRank tempSuit swapIndex s rs rule: drawLoop.induct)
  case (1 tempRank tempSuit swapIndex s rs)
  from "1.prems" obtain d1 d2 randSuit hr hs rep where p:
    "rand rs = Inr d1" "rand (snd d1) = Inr d2"
    "rd SUIT_LIST (fst d2 mod SUIT_COUNT) = Inr randSuit"
    "wr (handRank s) swapIndex (int (fst d1 mod RANK_COUNT) + 2) = Inr hr"
    "wr (handSuit s) swapIndex randSuit = Inr hs"
    "repeatCards (s\<lparr>handRank := hr, handSuit := hs\<rparr>) = Inr rep"
    and res: "(if rep \<or> (int (fst d1 mod RANK_COUNT) + 2 = tempRank \<and> randSuit = tempSuit)
       then drawLoop tempRank tempSuit swapIndex (s\<lparr>handRank := hr, handSuit := hs\<rparr>) (snd d2)
       else Inr (int (fst d1 mod RANK_COUNT) + 2, randSuit, s\<lparr>handRank := hr, handSuit := hs\<rparr>, snd d2))
      = Inr (r, c, s', rs')"
    by (subst (asm) drawLoop.simps) (auto simp: bindE_eq_Inr Let_def)
  show ?case
  proof (cases "rep \<or> (int (fst d1 mod RANK_COUNT) + 2 = tempRank \<and> randSuit = tempSuit)")
    case True
    with res have "drawLoop tempRank tempSuit swapIndex (s\<lparr>handRank := hr, handSuit := hs\<rparr>) (snd d2)
        = Inr (r, c, s', rs')"
      by simp
    from "1.IH" [OF p(1,2,3) refl p(4,5) refl refl p(6) True this] show ?thesis
      by simp
  next
    case False
    with res show ?thesis by auto
  qed
qed

lemma trialLoop_frame:
  "trialLoop n j tempRank tempSuit swapIndex num s rs = Inr (num', s', rs') \<Longrightarrow> frame s s'"
proof (induction n j tempRank tempSuit swapIndex num s rs rule: trialLoop.induct)
  case (1 n j tempRank tempSuit swapIndex num s rs)
  show ?case
  proof (cases "j < n")
    case False
    with "1.prems" show ?thesis
      by (simp add: trialLoop.simps)
  next
    case True
    with "1.prems" obtain d s2 k b where p:
      "drawLoop tempRank tempSuit swapIndex s rs = Inr d"
      "sortHand (fst (snd (snd d))) = Inr s2"
      "findSwapIndex (fst d) (fst (snd d)) s2 0 swapIndex = Inr k"
      "isBetterHand s2 = Inr b"
      "trialLoop n (j + 1) tempRank tempSuit k (if b then num + 1 else num) s2
         (snd (snd (snd d))) = Inr (num', s', rs')"
      by (subst (asm) trialLoop.simps) (auto simp: bindE_eq_Inr)
    from p(1) have "frame s (fst (snd (snd d)))"
      by (cases d) (auto dest: drawLoop_frame)
    moreover from p(2) have "frame (fst (snd (snd d))) s2"
      by (rule sortHand_frame)
    moreover from "1.IH" [OF True p] have "frame s2 s'" .
    ultimately show ?thesis
      by (blast intro: frame_trans)
  qed
qed

lemma storeProbability_frame:
  "storeProbability tempRank tempSuit p j s = Inr s' \<Longrightarrow> frame s s'"
proof (induction tempRank tempSuit p j s rule: storeProbability.induct)
  case (1 tempRank tempSuit p j s)
  show ?case
  proof (cases "j < HAND_SIZE")
    case False
    with "1.prems" show ?thesis
      by (simp add: storeProbability.simps)
  next
    case True
    with "1.prems" obtain c where c: "rd (copyHandSuit s) j = Inr c"
      by (subst (asm) storeProbability.simps) (auto simp: bindE_eq_Inr)
    show ?thesis
    proof (cases "tempSuit = c")
      case False
      with True c "1.prems" have "storeProbability tempRank tempSuit p (j + 1) s = Inr s'"
        by (subst (asm) storeProbability.simps) simp
      from "1.IH"(2) [OF True c False this] show ?thesis .
    next
      case eq: True
      with True c "1.prems" obtain r where r: "rd (copyHandRank s) j = Inr r"
        by (subst (asm) storeProbability.simps) (auto simp: bindE_eq_Inr)
      show ?thesis
      proof (cases "tempRank = r")
        case False
        with True c eq r "1.prems" have "storeProbability tempRank tempSuit p (j + 1) s = Inr s'"
          by (subst (asm) storeProbability.simps) simp
        from "1.IH"(1) [OF True c eq r False this] show ?thesis .
      next
        case True': True
        with True c eq r "1.prems" show ?thesis
          by (subst (asm) storeProbability.simps) (auto simp: bindE_eq_Inr frame_def)
      qed
    qed
  qed
qed


section \<open>The replacement card\<close>

lemma loadCopyHand_eq:
  assumes "length (handRank s) = 5" "length (handSuit s) = 5"
    and "length (copyHandRank s) = 5" "length (copyHandSuit s) = 5"
  shows "loadCopyHand s = Inr (s\<lparr>handRank := copyHandRank s, handSuit := copyHandSuit s\<rparr>)"
proof -
  from assms(1) obtain a b c d e where hr: "handRank s = [a, b, c, d, e]"
    by (auto dest: list5)
  from assms(2) obtain p q r t u where hs: "handSuit s = [p, q, r, t, u]"
    by (auto dest: list5)
  from assms(3) obtain a' b' c' d' e' where cr: "copyHandRank s = [a', b', c', d', e']"
    by (auto dest: list5)
  from assms(4) obtain p' q' r' t' u' where cs: "copyHandSuit s = [p', q', r', t', u']"
    by (auto dest: list5)
  show ?thesis
    by (simp add: loadCopyHand_def loadCopyHand_loop.simps rd_def wr_def hr hs cr cs)
qed

lemma toChar_id: "- 128 \<le> v \<Longrightarrow> v < 128 \<Longrightarrow> toChar v = v"
  by (simp add: toChar_def)

lemma ex_from_Suc:
  "(\<exists>m::nat. j \<le> m \<and> m < n \<and> P m) \<longleftrightarrow> (j < n \<and> P j) \<or> (\<exists>m. Suc j \<le> m \<and> m < n \<and> P m)"
proof
  assume "\<exists>m. j \<le> m \<and> m < n \<and> P m"
  then obtain m where m: "j \<le> m" "m < n" "P m"
    by blast
  show "(j < n \<and> P j) \<or> (\<exists>m. Suc j \<le> m \<and> m < n \<and> P m)"
  proof (cases "m = j")
    case True
    with m show ?thesis by simp
  next
    case False
    with m have "Suc j \<le> m" by simp
    with m show ?thesis by blast
  qed
next
  assume "(j < n \<and> P j) \<or> (\<exists>m. Suc j \<le> m \<and> m < n \<and> P m)"
  then show "\<exists>m. j \<le> m \<and> m < n \<and> P m"
  proof
    assume "j < n \<and> P j"
    then show ?thesis
      by (intro exI [of _ j]) simp
  next
    assume "\<exists>m. Suc j \<le> m \<and> m < n \<and> P m"
    then obtain m where "Suc j \<le> m" "m < n" "P m"
      by blast
    then show ?thesis
      by (intro exI [of _ m]) simp
  qed
qed

lemma ex2_from_Suc:
  "(\<exists>l m::nat. i \<le> l \<and> l < m \<and> m < n \<and> P l m) \<longleftrightarrow>
   (\<exists>m. Suc i \<le> m \<and> m < n \<and> P i m) \<or> (\<exists>l m. Suc i \<le> l \<and> l < m \<and> m < n \<and> P l m)"
proof -
  have "(\<exists>l m. i \<le> l \<and> l < m \<and> m < n \<and> P l m) \<longleftrightarrow>
        (\<exists>l. i \<le> l \<and> l < n \<and> (\<exists>m. l < m \<and> m < n \<and> P l m))"
    by (meson less_trans)
  also have "\<dots> \<longleftrightarrow> (i < n \<and> (\<exists>m. i < m \<and> m < n \<and> P i m)) \<or>
        (\<exists>l. Suc i \<le> l \<and> l < n \<and> (\<exists>m. l < m \<and> m < n \<and> P l m))"
    by (rule ex_from_Suc)
  also have "\<dots> \<longleftrightarrow> (\<exists>m. Suc i \<le> m \<and> m < n \<and> P i m) \<or>
        (\<exists>l m. Suc i \<le> l \<and> l < m \<and> m < n \<and> P l m)"
    by (meson Suc_leI Suc_le_lessD less_trans)
  finally show ?thesis .
qed

lemma repeatCards_inner_eq:
  assumes "length (handRank s) = 5" "length (handSuit s) = 5" "j \<le> 5"
  shows "repeatCards_inner rank suit j repCard s =
     Inr (repCard \<or> (\<exists>m. j \<le> m \<and> m < 5 \<and> handRank s ! m = rank \<and> handSuit s ! m = suit))"
  using assms
proof (induction "5 - j" arbitrary: j repCard)
  case 0
  then show ?case
    by (subst repeatCards_inner.simps) auto
next
  case (Suc n)
  then have j: "j < 5" and n: "n = 5 - Suc j" and j': "Suc j \<le> 5"
    by simp_all
  have step: "repeatCards_inner rank suit j repCard s =
      repeatCards_inner rank suit (Suc j)
        (repCard \<or> (handRank s ! j = rank \<and> handSuit s ! j = suit)) s"
    using j Suc.prems by (subst repeatCards_inner.simps) (auto simp: rd_def)
  have "(\<exists>m. j \<le> m \<and> m < 5 \<and> handRank s ! m = rank \<and> handSuit s ! m = suit) \<longleftrightarrow>
        (handRank s ! j = rank \<and> handSuit s ! j = suit) \<or>
        (\<exists>m. Suc j \<le> m \<and> m < 5 \<and> handRank s ! m = rank \<and> handSuit s ! m = suit)"
    using j by (simp add: ex_from_Suc [of j])
  with step Suc.hyps(1) [OF n Suc.prems(1,2) j'] show ?case
    by auto
qed

lemma repeatCards_outer_eq:
  assumes "length (handRank s) = 5" "length (handSuit s) = 5" "i \<le> 5"
  shows "repeatCards_outer i repCard s =
     Inr (repCard \<or> (\<exists>l m. i \<le> l \<and> l < m \<and> m < 5 \<and>
            handRank s ! m = toChar (handRank s ! l) \<and> handSuit s ! m = handSuit s ! l))"
  using assms
proof (induction "5 - i" arbitrary: i repCard)
  case 0
  then show ?case
    by (subst repeatCards_outer.simps) auto
next
  case (Suc n)
  then have i: "i < 5" and n: "n = 5 - Suc i" and i': "Suc i \<le> 5"
    by simp_all
  let ?P = "\<lambda>l m. handRank s ! m = toChar (handRank s ! l) \<and> handSuit s ! m = handSuit s ! l"
  have step: "repeatCards_outer i repCard s =
      repeatCards_outer (Suc i) (repCard \<or> (\<exists>m. Suc i \<le> m \<and> m < 5 \<and> ?P i m)) s"
    using i Suc.prems
    by (subst repeatCards_outer.simps) (simp add: rd_def repeatCards_inner_eq)
  have "(\<exists>l m. i \<le> l \<and> l < m \<and> m < 5 \<and> ?P l m) \<longleftrightarrow>
        (\<exists>m. Suc i \<le> m \<and> m < 5 \<and> ?P i m) \<or> (\<exists>l m. Suc i \<le> l \<and> l < m \<and> m < 5 \<and> ?P l m)"
    by (rule ex2_from_Suc)
  with step Suc.hyps(1) [OF n Suc.prems(1,2) i'] show ?case
    by auto
qed

lemma repeatCards_distinct:
  assumes len: "length (handRank s) = 5" "length (handSuit s) = 5"
    and rng: "\<forall>x\<in>set (handRank s). 2 \<le> x \<and> x \<le> 14"
  shows "repeatCards s = Inr (\<not> distinct (cards s))"
proof -
  have tc: "toChar (handRank s ! l) = handRank s ! l" if "l < 5" for l
    using rng len that by (intro toChar_id) (auto simp: all_set_conv_all_nth)
  have "(\<exists>l m. l < m \<and> m < 5 \<and> handRank s ! m = toChar (handRank s ! l) \<and>
           handSuit s ! m = handSuit s ! l) \<longleftrightarrow> \<not> distinct (cards s)"
    (is "?L \<longleftrightarrow> _")
  proof
    assume ?L
    then obtain l m where lm: "l < m" "m < 5" "handRank s ! m = toChar (handRank s ! l)"
      "handSuit s ! m = handSuit s ! l"
      by blast
    with tc [of l] have "cards s ! l = cards s ! m"
      using len by (simp add: cards_def)
    moreover from lm len have "l < length (cards s)" "m < length (cards s)" "l \<noteq> m"
      by (simp_all add: cards_def)
    ultimately show "\<not> distinct (cards s)"
      using nth_eq_iff_index_eq by blast
  next
    assume "\<not> distinct (cards s)"
    then obtain l m where lm: "l < 5" "m < 5" "l \<noteq> m" "cards s ! l = cards s ! m"
      using len by (auto simp: distinct_conv_nth cards_def)
    then have eq: "handRank s ! l = handRank s ! m" "handSuit s ! l = handSuit s ! m"
      using len by (simp_all add: cards_def)
    show ?L
    proof (cases "l < m")
      case True
      with lm eq tc [of l] show ?thesis
        by (intro exI [of _ l] exI [of _ m]) simp
    next
      case False
      with lm have "m < l" by simp
      with lm eq tc [of m] show ?thesis
        by (intro exI [of _ m] exI [of _ l]) simp
    qed
  qed
  then show ?thesis
    using len by (simp add: repeatCards_def repeatCards_outer_eq)
qed

lemma findSwapIndex_found:
  assumes "length (handRank s) = 5" "length (handSuit s) = 5"
    and "\<exists>m. k \<le> m \<and> m < 5 \<and> cards s ! m = (r, c)"
  shows "\<exists>k'. findSwapIndex r c s k swapIndex = Inr k' \<and> k' < 5 \<and> cards s ! k' = (r, c)"
  using assms
proof (induction "5 - k" arbitrary: k)
  case 0
  then show ?case by auto
next
  case (Suc n)
  then have k: "k < 5" and n: "n = 5 - Suc k"
    by auto
  show ?case
  proof (cases "cards s ! k = (r, c)")
    case True
    with k Suc.prems(1,2) have "findSwapIndex r c s k swapIndex = Inr k"
      by (subst findSwapIndex.simps) (simp add: rd_def cards_def)
    with k True show ?thesis by simp
  next
    case False
    with k Suc.prems(1,2) have step:
      "findSwapIndex r c s k swapIndex = findSwapIndex r c s (Suc k) swapIndex"
      by (subst findSwapIndex.simps) (auto simp: rd_def cards_def)
    from Suc.prems(3) False have "\<exists>m. Suc k \<le> m \<and> m < 5 \<and> cards s ! m = (r, c)"
      by (simp add: ex_from_Suc [of k])
    from Suc.hyps(1) [OF n Suc.prems(1,2) this] step show ?thesis
      by simp
  qed
qed


lemma drawLoop_props:
  assumes "length (handRank s) = 5" "length (handSuit s) = 5" "swapIndex < 5"
    and "drawLoop tempRank tempSuit swapIndex s rs = Inr (r, c, s', rs')"
  shows "handRank s' = (handRank s)[swapIndex := r] \<and>
         handSuit s' = (handSuit s)[swapIndex := c] \<and>
         2 \<le> r \<and> r \<le> 14 \<and> (r, c) \<noteq> (tempRank, tempSuit) \<and>
         repeatCards s' = Inr False"
  using assms
proof (induction tempRank tempSuit swapIndex s rs rule: drawLoop.induct)
  case (1 tempRank tempSuit swapIndex s rs)
  let ?r = "\<lambda>d1. int (fst d1 mod RANK_COUNT) + 2"
  from "1.prems"(4) obtain d1 d2 randSuit hr hs rep where p:
    "rand rs = Inr d1" "rand (snd d1) = Inr d2"
    "rd SUIT_LIST (fst d2 mod SUIT_COUNT) = Inr randSuit"
    "wr (handRank s) swapIndex (?r d1) = Inr hr"
    "wr (handSuit s) swapIndex randSuit = Inr hs"
    "repeatCards (s\<lparr>handRank := hr, handSuit := hs\<rparr>) = Inr rep"
    and res: "(if rep \<or> (?r d1 = tempRank \<and> randSuit = tempSuit)
       then drawLoop tempRank tempSuit swapIndex (s\<lparr>handRank := hr, handSuit := hs\<rparr>) (snd d2)
       else Inr (?r d1, randSuit, s\<lparr>handRank := hr, handSuit := hs\<rparr>, snd d2))
      = Inr (r, c, s', rs')"
    by (subst (asm) drawLoop.simps) (auto simp: bindE_eq_Inr Let_def)
  from p(4,5) "1.prems"(1-3) have upd: "hr = (handRank s)[swapIndex := ?r d1]"
    "hs = (handSuit s)[swapIndex := randSuit]"
    by (simp_all add: wr_def)
  show ?case
  proof (cases "rep \<or> (?r d1 = tempRank \<and> randSuit = tempSuit)")
    case True
    with res have rec:
      "drawLoop tempRank tempSuit swapIndex (s\<lparr>handRank := hr, handSuit := hs\<rparr>) (snd d2)
        = Inr (r, c, s', rs')"
      by simp
    have "handRank s' = (handRank (s\<lparr>handRank := hr, handSuit := hs\<rparr>))[swapIndex := r] \<and>
          handSuit s' = (handSuit (s\<lparr>handRank := hr, handSuit := hs\<rparr>))[swapIndex := c] \<and>
          2 \<le> r \<and> r \<le> 14 \<and> (r, c) \<noteq> (tempRank, tempSuit) \<and> repeatCards s' = Inr False"
      using "1.prems"(1-3) upd
      by (intro "1.IH" [OF p(1,2,3) refl p(4,5) refl refl p(6) True _ _ _ rec]) simp_all
    with upd show ?thesis
      by simp
  next
    case False
    with res p(6) upd show ?thesis
      by auto
  qed
qed

lemma cards_update:
  "length (handRank s) = length (handSuit s) \<Longrightarrow>
   cards (s\<lparr>handRank := (handRank s)[k := r], handSuit := (handSuit s)[k := c]\<rparr>)
     = (cards s)[k := (r, c)]"
  by (simp add: cards_def zip_update)

lemma trial_inv_position:
  assumes vo: "valid_original s0"
    and len: "length (handRank s) = HAND_SIZE" "length (handSuit s) = HAND_SIZE"
    and cp: "copyHandRank s = copyHandRank s0" "copyHandSuit s = copyHandSuit s0"
    and i: "i < HAND_SIZE" and l: "loadCopyHand s = Inr s1" and so: "sortHand s1 = Inr s2"
    and t: "rd (handSuit s2) i = Inr tempSuit" "rd (handRank s2) i = Inr tempRank"
  shows "trial_inv s0 tempRank tempSuit i s2"
proof -
  from vo cp have "length (copyHandRank s) = 5" "length (copyHandSuit s) = 5"
    by (simp_all add: valid_original_def)
  from l loadCopyHand_eq [OF len this]
  have s1: "s1 = s\<lparr>handRank := copyHandRank s, handSuit := copyHandSuit s\<rparr>"
    by simp
  with cp vo have len1: "length (handRank s1) = 5" "length (handSuit s1) = 5"
    and c1: "cards s1 = original s0"
    by (simp_all add: valid_original_def cards_def original_def)
  from sortHand_sort [OF len1] so have s2: "handRank s2 = sort (handRank s1)"
    "length (handSuit s2) = 5" "mset (cards s2) = mset (cards s1)"
    by auto
  then have len2: "length (handRank s2) = 5"
    using len1 by simp
  from t i len2 s2(2) have "cards s2 ! i = (tempRank, tempSuit)"
    by (simp add: rd_def cards_def)
  then have "(cards s2)[i := (tempRank, tempSuit)] = cards s2"
    by (metis list_update_id)
  moreover have "\<forall>x\<in>set (handRank s2). 2 \<le> x \<and> x \<le> 14"
    using s2(1) s1 cp vo by (simp add: valid_original_def)
  ultimately show ?thesis
    using len2 s2(2,3) c1 i by (simp add: trial_inv_def)
qed

lemma trial_inv_accept:
  assumes inv: "trial_inv s0 tempRank tempSuit swapIndex s"
    and d: "drawLoop tempRank tempSuit swapIndex s rs = Inr (r, c, s1, rs1)"
  shows "(r, c) \<notin> set (original s0)"
    and "length (handRank s1) = 5" "length (handSuit s1) = 5"
    and "\<forall>x\<in>set (handRank s1). 2 \<le> x \<and> x \<le> 14"
    and "(r, c) \<in> set (cards s1)"
    and "add_mset (tempRank, tempSuit) (mset (cards s1) - {#(r, c)#}) = mset (original s0)"
proof -
  from inv have len: "length (handRank s) = 5" "length (handSuit s) = 5" and k: "swapIndex < 5"
    and rng: "\<forall>x\<in>set (handRank s). 2 \<le> x \<and> x \<le> 14"
    and m: "mset ((cards s)[swapIndex := (tempRank, tempSuit)]) = mset (original s0)"
    by (simp_all add: trial_inv_def)
  from drawLoop_props [OF len k d] have p: "handRank s1 = (handRank s)[swapIndex := r]"
    "handSuit s1 = (handSuit s)[swapIndex := c]" "2 \<le> r" "r \<le> 14"
    "(r, c) \<noteq> (tempRank, tempSuit)" "repeatCards s1 = Inr False"
    by simp_all
  from p(1,2) len show len1: "length (handRank s1) = 5" "length (handSuit s1) = 5"
    by simp_all
  from p(1,3,4) rng show rng1: "\<forall>x\<in>set (handRank s1). 2 \<le> x \<and> x \<le> 14"
    by (auto dest: set_update_subset_insert [THEN subsetD])
  from p(1,2) len have c1: "cards s1 = (cards s)[swapIndex := (r, c)]"
    by (simp add: cards_def zip_update)
  have lc: "swapIndex < length (cards s)"
    using len k by (simp add: cards_def)
  from c1 lc show mem: "(r, c) \<in> set (cards s1)"
    by (simp add: set_update_memI)
  from p(6) repeatCards_distinct [OF len1 rng1] have dist: "distinct (cards s1)"
    by simp
  have "(cards s)[swapIndex := (tempRank, tempSuit)] = (cards s1)[swapIndex := (tempRank, tempSuit)]"
    by (simp add: c1)
  moreover have "cards s1 ! swapIndex = (r, c)"
    using c1 lc by simp
  moreover have "swapIndex < length (cards s1)"
    using c1 lc by simp
  ultimately have "mset ((cards s)[swapIndex := (tempRank, tempSuit)])
      = add_mset (tempRank, tempSuit) (mset (cards s1) - {#(r, c)#})"
    by (simp add: mset_update)
  with m show eq: "add_mset (tempRank, tempSuit) (mset (cards s1) - {#(r, c)#}) = mset (original s0)"
    by simp
  show "(r, c) \<notin> set (original s0)"
  proof
    assume "(r, c) \<in> set (original s0)"
    then have "(r, c) \<in># add_mset (tempRank, tempSuit) (mset (cards s1) - {#(r, c)#})"
      by (simp add: eq)
    then have "(r, c) = (tempRank, tempSuit) \<or> (r, c) \<in># mset (cards s1) - {#(r, c)#}"
      by (simp only: set_mset_add_mset_insert insert_iff)
    with p(5) have "(r, c) \<in># mset (cards s1) - {#(r, c)#}"
      by blast
    then have "0 < count (mset (cards s1) - {#(r, c)#}) (r, c)"
      by (simp only: count_greater_zero_iff)
    then have "2 \<le> count (mset (cards s1)) (r, c)"
      by simp
    moreover from dist have "count (mset (cards s1)) (r, c) \<le> 1"
      by (simp add: distinct_count_atmost_1)
    ultimately show False
      by simp
  qed
qed

lemma trial_inv_trial:
  assumes inv: "trial_inv s0 tempRank tempSuit swapIndex s"
    and d: "drawLoop tempRank tempSuit swapIndex s rs = Inr (r, c, s1, rs1)"
    and so: "sortHand s1 = Inr s2"
    and f: "findSwapIndex r c s2 0 swapIndex = Inr swapIndex'"
  shows "trial_inv s0 tempRank tempSuit swapIndex' s2"
proof -
  note a = trial_inv_accept [OF inv d]
  from sortHand_sort [OF a(2,3)] so have s2: "handRank s2 = sort (handRank s1)"
    "length (handSuit s2) = 5" "mset (cards s2) = mset (cards s1)"
    by auto
  then have len2: "length (handRank s2) = 5"
    using a(2) by simp
  have "(r, c) \<in> set (cards s2)"
    using a(5) s2(3) by (metis mset_eq_setD)
  then obtain m where "m < length (cards s2)" "cards s2 ! m = (r, c)"
    by (auto simp: in_set_conv_nth)
  then have "\<exists>m. 0 \<le> m \<and> m < 5 \<and> cards s2 ! m = (r, c)"
    using len2 s2(2) by (auto simp: cards_def)
  from findSwapIndex_found [OF len2 s2(2) this, of swapIndex] f
  have k': "swapIndex' < 5" "cards s2 ! swapIndex' = (r, c)"
    by auto
  have "swapIndex' < length (cards s2)"
    using k' len2 s2(2) by (simp add: cards_def)
  then have "mset ((cards s2)[swapIndex' := (tempRank, tempSuit)])
      = add_mset (tempRank, tempSuit) (mset (cards s2) - {#(r, c)#})"
    using k'(2) by (simp add: mset_update)
  with s2(3) a(6) have "mset ((cards s2)[swapIndex' := (tempRank, tempSuit)]) = mset (original s0)"
    by simp
  moreover have "\<forall>x\<in>set (handRank s2). 2 \<le> x \<and> x \<le> 14"
    using s2(1) a(4) by simp
  ultimately show ?thesis
    using len2 s2(2) k'(1) by (simp add: trial_inv_def)
qed

lemma trial_head_inv:
  "trial_head s0 tempRank tempSuit swapIndex s \<Longrightarrow> valid_original s0 \<Longrightarrow>
   trial_inv s0 tempRank tempSuit swapIndex s"
proof (induction rule: trial_head.induct)
  case (position s i s1 s2 tempSuit tempRank)
  from position.prems position.hyps show ?case
    by (rule trial_inv_position)
next
  case (trial tempRank tempSuit swapIndex s rs randRank randSuit s1 rs1 s2 swapIndex')
  from trial.IH [OF trial.prems] trial.hyps(2,3,4) show ?case
    by (rule trial_inv_trial)
qed

lemma trialLoop_trial_head:
  "trialLoop n j tempRank tempSuit swapIndex num s rs = Inr (num', s', rs') \<Longrightarrow>
   trial_head s0 tempRank tempSuit swapIndex s \<Longrightarrow>
   \<exists>swapIndex'. trial_head s0 tempRank tempSuit swapIndex' s'"
proof (induction n j tempRank tempSuit swapIndex num s rs rule: trialLoop.induct)
  case (1 n j tempRank tempSuit swapIndex num s rs)
  show ?case
  proof (cases "j < n")
    case False
    with "1.prems" show ?thesis
      by (auto simp: trialLoop.simps)
  next
    case True
    with "1.prems"(1) obtain d s2 k b where p:
      "drawLoop tempRank tempSuit swapIndex s rs = Inr d"
      "sortHand (fst (snd (snd d))) = Inr s2"
      "findSwapIndex (fst d) (fst (snd d)) s2 0 swapIndex = Inr k"
      "isBetterHand s2 = Inr b"
      "trialLoop n (j + 1) tempRank tempSuit k (if b then num + 1 else num) s2
         (snd (snd (snd d))) = Inr (num', s', rs')"
      by (subst (asm) trialLoop.simps) (auto simp: bindE_eq_Inr)
    from p(1) have "drawLoop tempRank tempSuit swapIndex s rs
        = Inr (fst d, fst (snd d), fst (snd (snd d)), snd (snd (snd d)))"
      by simp
    from trial_head.trial [OF "1.prems"(2) this p(2,3)]
    have "trial_head s0 tempRank tempSuit k s2" .
    from "1.IH" [OF True p this] show ?thesis .
  qed
qed

lemma storeProbability_hand:
  "storeProbability tempRank tempSuit p j s = Inr s' \<Longrightarrow>
   handRank s' = handRank s \<and> handSuit s' = handSuit s"
proof (induction tempRank tempSuit p j s rule: storeProbability.induct)
  case (1 tempRank tempSuit p j s)
  show ?case
  proof (cases "j < HAND_SIZE")
    case False
    with "1.prems" show ?thesis
      by (simp add: storeProbability.simps)
  next
    case True
    with "1.prems" obtain c where c: "rd (copyHandSuit s) j = Inr c"
      by (subst (asm) storeProbability.simps) (auto simp: bindE_eq_Inr)
    show ?thesis
    proof (cases "tempSuit = c")
      case False
      with True c "1.prems" have "storeProbability tempRank tempSuit p (j + 1) s = Inr s'"
        by (subst (asm) storeProbability.simps) simp
      from "1.IH"(2) [OF True c False this] show ?thesis .
    next
      case eq: True
      with True c "1.prems" obtain r where r: "rd (copyHandRank s) j = Inr r"
        by (subst (asm) storeProbability.simps) (auto simp: bindE_eq_Inr)
      show ?thesis
      proof (cases "tempRank = r")
        case False
        with True c eq r "1.prems" have "storeProbability tempRank tempSuit p (j + 1) s = Inr s'"
          by (subst (asm) storeProbability.simps) simp
        from "1.IH"(1) [OF True c eq r False this] show ?thesis .
      next
        case True': True
        with True c eq r "1.prems" show ?thesis
          by (subst (asm) storeProbability.simps) (auto simp: bindE_eq_Inr)
      qed
    qed
  qed
qed

text \<open>
  The state that one position of \<open>getProbabilities\<close> leaves is again a state from which
  rule \<open>position\<close> starts: the steps below are the body of the loop over the positions.
\<close>

lemma position_next:
  assumes vo: "valid_original s0"
    and len: "length (handRank s) = HAND_SIZE" "length (handSuit s) = HAND_SIZE"
    and cp: "copyHandRank s = copyHandRank s0" "copyHandSuit s = copyHandSuit s0"
    and i: "i < HAND_SIZE" and l: "loadCopyHand s = Inr s1" and so: "sortHand s1 = Inr s2"
    and t: "rd (handSuit s2) i = Inr tempSuit" "rd (handRank s2) i = Inr tempRank"
    and tr: "trialLoop n 0 tempRank tempSuit i 0 s2 rs = Inr (num, s3, rs')"
    and st: "storeProbability tempRank tempSuit p 0 s3 = Inr s4"
  shows "length (handRank s4) = HAND_SIZE" "length (handSuit s4) = HAND_SIZE"
    "copyHandRank s4 = copyHandRank s0" "copyHandSuit s4 = copyHandSuit s0"
proof -
  from len cp i l so t have "trial_head s0 tempRank tempSuit i s2"
    by (rule trial_head.position)
  from trialLoop_trial_head [OF tr this] obtain k where "trial_head s0 tempRank tempSuit k s3"
    by blast
  from trial_head_inv [OF this vo] have "length (handRank s3) = 5" "length (handSuit s3) = 5"
    by (simp_all add: trial_inv_def)
  with storeProbability_hand [OF st]
  show "length (handRank s4) = HAND_SIZE" "length (handSuit s4) = HAND_SIZE"
    by simp_all
  from l have "frame s s1"
    by (simp add: loadCopyHand_def loadCopyHand_loop_frame)
  moreover from so have "frame s1 s2"
    by (rule sortHand_frame)
  moreover from tr have "frame s2 s3"
    by (rule trialLoop_frame)
  moreover from st have "frame s3 s4"
    by (rule storeProbability_frame)
  ultimately have "frame s s4"
    by (blast intro: frame_trans)
  with cp show "copyHandRank s4 = copyHandRank s0" "copyHandSuit s4 = copyHandSuit s0"
    by (simp_all add: frame_def)
qed

section \<open>The detectors with words behind handRank\<close>












lemma behind_simps [simp]:
  "handRank (behind m s) = handRank s @ m" "handSuit (behind m s) = handSuit s"
  "copyHandRank (behind m s) = copyHandRank s" "copyHandSuit (behind m s) = copyHandSuit s"
  "probabilities (behind m s) = probabilities s" "pokerHandID (behind m s) = pokerHandID s"
  by (simp_all add: behind_def)

lemma behind_pokerHandID: "behind m (s\<lparr>pokerHandID := k\<rparr>) = (behind m s)\<lparr>pokerHandID := k\<rparr>"
  by (simp add: behind_def)




section \<open>The key and the comparison by the results of the detectors\<close>





section \<open>sortHand with words behind handRank\<close>












section \<open>Claims\<close>



text \<open>
  C9. For every valid hand whose five suits are all equal and whose ranks do not form a
  straight, classification (\<open>sortHand\<close>, then \<open>getHandRank\<close>) yields the category Flush
  with the sum of the five ranks as primary tie-break and secondary tie-break 0.
\<close>

theorem classify_flush:
  assumes v: "valid_hand s" and fl: "allSameSuit (handSuit s)"
    and ns: "\<not> formsStraight (handRank s)"
  shows "\<exists>s'. classify s = Inr s' \<and> pokerHandID s' = [FLUSH, sum_list (handRank s), 0]"
proof -
  from valid_hand_sortHand [OF v] obtain s1 where s1: "sortHand s = Inr s1" "valid_hand s1"
    "handRank s1 = sort (handRank s)" "mset (handSuit s1) = mset (handSuit s)"
    by auto
  from s1(3) have "sorted (handRank s1)" by simp
  with s1(2) obtain a b c d e p q r t u x y z where l:
    "handRank s1 = [a, b, c, d, e]" "handSuit s1 = [p, q, r, t, u]" "pokerHandID s1 = [x, y, z]"
    "a \<le> b" "b \<le> c" "c \<le> d" "d \<le> e" "0 < a"
    "sameSuit p q r t u \<longrightarrow> a \<noteq> b \<and> b \<noteq> c \<and> c \<noteq> d \<and> d \<noteq> e"
    by (rule valid_sorted_lists)
  have set: "set (handSuit s1) = set (handSuit s)"
    using s1(4) by (rule mset_eq_setD)
  have "handSuit s \<noteq> []"
    using v by (auto simp: valid_hand_def wf_arrays_def)
  with fl set l(2) have same: "sameSuit p q r t u"
    by (simp add: allSameSuit_set sameSuit_set)
  from ns s1(3) l(1) have st: "straightRank a b c d e = 0"
    using straightRank_formsStraight [of a b c d e "handRank s"] by auto
  have "sum_list (handRank s) = sum_list (handRank s1)"
    unfolding s1(3) by (metis mset_sort sum_mset_sum_list)
  then have sum: "sum_list (handRank s) = a + b + c + d + e"
    by (simp add: l(1))
  from same l(9) have "getHandRank s1 = Inr (s1\<lparr>pokerHandID := [FLUSH, a + b + c + d + e, 0]\<rparr>)"
    by (simp add: getHandRank_eq [OF l] st)
  with s1(1) sum show ?thesis
    by (simp add: classify_def)
qed

theorem classify_flush_witness:
  "valid_hand flush_example \<and> allSameSuit (handSuit flush_example) \<and>
   \<not> formsStraight (handRank flush_example) \<and>
   (\<exists>s'. classify flush_example = Inr s' \<and>
         pokerHandID s' = [FLUSH, sum_list (handRank flush_example), 0])"
proof -
  have v: "valid_hand flush_example"
    by (simp add: valid_hand_def wf_arrays_def cards_def flush_example_def SUIT_LIST_def)
  have f: "allSameSuit (handSuit flush_example)"
    by (simp add: allSameSuit_def flush_example_def)
  have n: "\<not> formsStraight (handRank flush_example)"
    by (simp add: formsStraight_def flush_example_def)
  from classify_flush [OF v f n] v f n show ?thesis by blast
qed



text \<open>
  C8. Classifying the wheel hand 14H 2H 3H 4H 5H yields the category StraightFlush with
  primary tie-break 5.
\<close>

theorem classify_wheel:
  assumes hr: "handRank s = [14, 2, 3, 4, 5]" and hs: "handSuit s = ''HHHHH''"
    and id: "length (pokerHandID s) = 3"
  shows "\<exists>s'. classify s = Inr s' \<and> pokerHandID s' = [STRAIGHT_FLUSH, 5, 0]"
proof -
  from hr hs have len: "length (handRank s) = 5" "length (handSuit s) = 5"
    by simp_all
  from sortHand_sort [OF len] obtain s1 where s1: "sortHand s = Inr s1"
    "handRank s1 = sort (handRank s)" "length (handSuit s1) = 5"
    "mset (handSuit s1) = mset (handSuit s)" "sameRest s s1"
    by auto
  from s1(2) hr have hr1: "handRank s1 = [2, 3, 4, 5, 14]"
    by simp
  from s1(3) obtain p q r t u where hs1: "handSuit s1 = [p, q, r, t, u]"
    by (auto dest: list5)
  have "set (handSuit s1) = set (handSuit s)"
    using s1(4) by (rule mset_eq_setD)
  with hs hs1 have same: "sameSuit p q r t u"
    by (auto simp: sameSuit_def)
  from id s1(5) obtain x y z where id1: "pokerHandID s1 = [x, y, z]"
    by (auto simp: sameRest_def dest: list3)
  have "getHandRank s1 = Inr (s1\<lparr>pokerHandID := [STRAIGHT_FLUSH, 5, 0]\<rparr>)"
    using same by (simp add: getHandRank_eq [OF hr1 hs1 id1] straightRank_def)
  with s1(1) show ?thesis
    by (simp add: classify_def)
qed

theorem classify_wheel_witness:
  "handRank wheel_example = [14, 2, 3, 4, 5] \<and> handSuit wheel_example = ''HHHHH'' \<and>
   length (pokerHandID wheel_example) = 3 \<and>
   (\<exists>s'. classify wheel_example = Inr s' \<and> pokerHandID s' = [STRAIGHT_FLUSH, 5, 0])"
proof -
  have a: "handRank wheel_example = [14, 2, 3, 4, 5]"
    and b: "handSuit wheel_example = ''HHHHH''"
    and c: "length (pokerHandID wheel_example) = 3"
    by (simp_all add: wheel_example_def)
  from classify_wheel [OF a b c] a b c show ?thesis by blast
qed

text \<open>
  C2 (fails on the code). The detectors do not stay within the five cards of every
  well-formed sorted hand: \<open>isFullHouse\<close> reads \<open>handRank[5]\<close> on a four-of-a-kind hand
  and on a full house, \<open>isXOfAKind(4)\<close> on a full house, and \<open>isXOfAKind(3)\<close> on a
  two-pair hand.
\<close>

theorem detectors_out_of_bounds:
  "isFullHouse four_example = Inl OutOfBounds \<and>
   isFullHouse full_example = Inl OutOfBounds \<and>
   isXOfAKind 4 full_example = Inl OutOfBounds \<and>
   isXOfAKind 3 twopair_example = Inl OutOfBounds"
  by code_simp







text \<open>
  C5. In every trial of every position, the replacement card that the \<open>do ... while\<close>
  loop accepts is not a card of the original hand (the four cards held fixed and the
  card being replaced), whatever values \<open>rand()\<close> returns.
\<close>

theorem accepted_card_not_original:
  assumes "valid_original s0" and "trial_head s0 tempRank tempSuit swapIndex s"
    and "drawLoop tempRank tempSuit swapIndex s rs = Inr (randRank, randSuit, s1, rs1)"
  shows "(randRank, randSuit) \<notin> set (original s0)"
  using trial_inv_accept(1) [OF trial_head_inv [OF assms(2,1)] assms(3)] .

theorem accepted_card_not_original_witness:
  "valid_original tie_example \<and> trial_head tie_example 2 CHR ''C'' 0 tie_example \<and>
   drawLoop 2 CHR ''C'' 0 tie_example [12, 4, 12, 5]
     = Inr (14, CHR ''D'', tie_example\<lparr>handRank := [14, 5, 7, 9, 14], handSuit := ''DDHSC''\<rparr>, []) \<and>
   (14, CHR ''D'') \<notin> set (original tie_example)"
proof -
  have v: "valid_original tie_example"
    by (simp add: valid_original_def original_def tie_example_def)
  have h: "trial_head tie_example 2 CHR ''C'' 0 tie_example"
  proof (rule trial_head.position)
    show "length (handRank tie_example) = HAND_SIZE" "length (handSuit tie_example) = HAND_SIZE"
      by (simp_all add: tie_example_def)
    show "loadCopyHand tie_example
        = Inr (tie_example\<lparr>handRank := [9, 2, 14, 5, 7], handSuit := ''SCCDH''\<rparr>)"
      by code_simp
    show "sortHand (tie_example\<lparr>handRank := [9, 2, 14, 5, 7], handSuit := ''SCCDH''\<rparr>)
        = Inr tie_example"
      by code_simp
    show "rd (handSuit tie_example) 0 = Inr CHR ''C''" "rd (handRank tie_example) 0 = Inr 2"
      by code_simp+
  qed simp_all
  have d: "drawLoop 2 CHR ''C'' 0 tie_example [12, 4, 12, 5]
     = Inr (14, CHR ''D'', tie_example\<lparr>handRank := [14, 5, 7, 9, 14], handSuit := ''DDHSC''\<rparr>, [])"
    by code_simp
  from accepted_card_not_original [OF v h d] v h d show ?thesis
    by blast
qed

end
